theory Spec2Isabelle
  imports Main "HOL-Library.AList" "HOL-Library.Multiset"
begin

section \<open>Values and strict equality\<close>

text \<open>
  The library is written in TypeScript on top of RxJS. Three of its functions compare values
  with \<^verbatim>\<open>===\<close> or \<^verbatim>\<open>!==\<close> (\<^verbatim>\<open>createAction\<close>,
  \<^verbatim>\<open>combineReducers\<close>, and \<^verbatim>\<open>select\<close> through
  \<^verbatim>\<open>distinctUntilChanged\<close>), so the values they handle are modelled with the
  distinctions that strict equality makes: primitives are compared by value, \<^verbatim>\<open>NaN\<close>
  is equal to nothing, and objects are compared by reference. An object carries its reference
  (a natural number standing for its address) and its own properties in insertion order. No
  function of the library mutates an object after building it, so an object is a value.
  Numbers are the integers and \<^verbatim>\<open>NaN\<close>.
\<close>

datatype jsval =
    Undefined
  | Null
  | Bool bool
  | Num int
  | NaN
  | Str string
  | Obj nat "(string \<times> jsval) list"

text \<open>\<^verbatim>\<open>x === y\<close>\<close>

fun strict_eq :: "jsval \<Rightarrow> jsval \<Rightarrow> bool" where
  "strict_eq NaN y = False"
| "strict_eq x NaN = False"
| "strict_eq (Obj r ps) (Obj r' ps') = (r = r')"
| "strict_eq x y = (x = y)"

text \<open>
  \<^verbatim>\<open>x[p]\<close>: an own property of an object, \<^verbatim>\<open>undefined\<close> when the object
  does not have it. Primitives are taken to have no properties, and the properties that an
  object inherits from its prototype are left out.
\<close>

fun get_prop :: "jsval \<Rightarrow> string \<Rightarrow> jsval" where
  "get_prop (Obj r ps) p = (case map_of ps p of Some v \<Rightarrow> v | None \<Rightarrow> Undefined)"
| "get_prop x p = Undefined"

section \<open>Actions\<close>

text \<open>
  \<^verbatim>\<open>Action<T, P>\<close> is \<^verbatim>\<open>{ type: T }\<close> or \<^verbatim>\<open>{ type: T; payload: P }\<close>
  with \<^verbatim>\<open>T extends string\<close>. The record's \<open>payload\<close> is \<open>None\<close> when the
  object has no \<^verbatim>\<open>payload\<close> property.
\<close>

record action =
  type :: string
  payload :: "jsval option"

text \<open>
  \<^verbatim>\<open>
  export function createAction(type, payload?) {
      return payload === void 0 ? { type } : { type, payload };
  }
  \<close>
  A call without the second argument binds \<^verbatim>\<open>payload\<close> to \<^verbatim>\<open>undefined\<close>.
  The body has no \<^verbatim>\<open>throw\<close> and calls nothing, so the model is a total function with
  a plain result type.
\<close>

definition createAction :: "string \<Rightarrow> jsval \<Rightarrow> action" where
  "createAction t p =
     (if strict_eq p Undefined then \<lparr>type = t, payload = None\<rparr>
      else \<lparr>type = t, payload = Some p\<rparr>)"

text \<open>The two reserved actions that \<^verbatim>\<open>createStore\<close> builds.\<close>

definition INIT :: action where
  "INIT = createAction ''@@INIT'' Undefined"

definition INIT_STATE :: action where
  "INIT_STATE = createAction ''@@INIT/state'' Undefined"

section \<open>Observables as recordings\<close>

text \<open>
  The operators of \<^verbatim>\<open>select\<close> and \<^verbatim>\<open>combineEffects\<close> are RxJS's. They are
  modelled on the recording of a stream: the values it emits, each with the frame of virtual
  time at which it is emitted, in emission order (a marble diagram without its completion).
\<close>

type_synonym 'a observable = "(nat \<times> 'a) list"

text \<open>\<^verbatim>\<open>map(project)\<close>: every value is replaced by its image, at the same frame.\<close>

definition map_op :: "('a \<Rightarrow> 'b) \<Rightarrow> 'a observable \<Rightarrow> 'b observable" where
  "map_op project source = map (\<lambda>(t, x). (t, project x)) source"

text \<open>
  \<^verbatim>\<open>pluck(...properties)\<close> maps every value through this loop of RxJS:
  \<^verbatim>\<open>
  let currentProp = x;
  for (let i = 0; i < length; i++) {
      const p = currentProp != null ? currentProp[props[i]] : undefined;
      if (p !== void 0) { currentProp = p; } else { return undefined; }
  }
  return currentProp;
  \<close>
\<close>

fun plucker :: "string list \<Rightarrow> jsval \<Rightarrow> jsval" where
  "plucker [] currentProp = currentProp"
| "plucker (prop # props) currentProp =
     (let p = get_prop currentProp prop
      in if \<not> strict_eq p Undefined then plucker props p else Undefined)"

definition pluck :: "string list \<Rightarrow> jsval observable \<Rightarrow> jsval observable" where
  "pluck properties source = map_op (plucker properties) source"

text \<open>
  \<^verbatim>\<open>distinctUntilChanged()\<close> without arguments keeps a key, absent at first:
  \<^verbatim>\<open>
  _next(value) {
      let result = false;
      if (this.hasKey) { result = this.key === value; } else { this.hasKey = true; }
      if (!result) { this.key = value; this.destination.next(value); }
  }
  \<close>
  The first argument of the model is the key (\<open>None\<close> while \<^verbatim>\<open>hasKey\<close> is false).
\<close>

fun distinctUntilChanged_from :: "jsval option \<Rightarrow> jsval observable \<Rightarrow> jsval observable" where
  "distinctUntilChanged_from key [] = []"
| "distinctUntilChanged_from key ((t, v) # source) =
     (if (case key of None \<Rightarrow> False | Some k \<Rightarrow> strict_eq k v)
      then distinctUntilChanged_from key source
      else (t, v) # distinctUntilChanged_from (Some v) source)"

definition distinctUntilChanged :: "jsval observable \<Rightarrow> jsval observable" where
  "distinctUntilChanged source = distinctUntilChanged_from None source"

text \<open>
  \<^verbatim>\<open>merge(...observables)\<close> forwards every value of every input when it is emitted.
  On recordings: the values in the order of their frames, and within one frame in the order
  of the arguments (\<^verbatim>\<open>merge\<close> subscribes to its inputs from left to right). Without
  inputs the result emits nothing.
\<close>

fun merge2 :: "'a observable \<Rightarrow> 'a observable \<Rightarrow> 'a observable" where
  "merge2 [] right = right"
| "merge2 left [] = left"
| "merge2 ((t, x) # left) ((u, y) # right) =
     (if t \<le> u then (t, x) # merge2 left ((u, y) # right)
      else (u, y) # merge2 ((t, x) # left) right)"

definition merge :: "'a observable list \<Rightarrow> 'a observable" where
  "merge observables = foldr merge2 observables []"

section \<open>The selector\<close>

text \<open>
  \<^verbatim>\<open>
  export function select(pathOrMapper, ...paths) {
      const haveMapperFunc = typeof pathOrMapper === 'function';
      return source$ =>
          source$.pipe(
              haveMapperFunc
                  ? map(source => pathOrMapper(source))
                  : pluck(...[pathOrMapper, ...paths]),
              distinctUntilChanged(),
          );
  }
  \<close>
  The first argument is a function or a string; the constructor tells which.
\<close>

datatype path_or_mapper = Mapper "jsval \<Rightarrow> jsval" | Path string

definition select :: "path_or_mapper \<Rightarrow> string list \<Rightarrow> jsval observable \<Rightarrow> jsval observable" where
  "select pathOrMapper paths source =
     distinctUntilChanged
       (case pathOrMapper of
          Mapper mapper \<Rightarrow> map_op (\<lambda>source. mapper source) source
        | Path path \<Rightarrow> pluck (path # paths) source)"

text \<open>
  The projection of one source value, in either mode: what the first operator of the pipe
  hands to \<^verbatim>\<open>distinctUntilChanged\<close>.
\<close>

definition projection :: "path_or_mapper \<Rightarrow> string list \<Rightarrow> jsval \<Rightarrow> jsval" where
  "projection pathOrMapper paths x =
     (case pathOrMapper of Mapper mapper \<Rightarrow> mapper x | Path path \<Rightarrow> plucker (path # paths) x)"

section \<open>Effects and their composition\<close>

text \<open>
  \<^verbatim>\<open>
  export type Effect<A, S> = (action$: Observable<A>, state: Observable<S>) => Observable<A>;
  export function combineEffects(...effects) {
      return (action$, state$) => merge(...effects.map(effect => effect(action$, state$)));
  }
  \<close>
\<close>

type_synonym 's effect = "action observable \<Rightarrow> 's observable \<Rightarrow> action observable"

definition combineEffects :: "'s effect list \<Rightarrow> 's effect" where
  "combineEffects effects = (\<lambda>action state. merge (map (\<lambda>effect. effect action state) effects))"

section \<open>Reducers and their composition\<close>

text \<open>
  \<^verbatim>\<open>export type Reducer<A, S> = (state: S | undefined, action: A) => S;\<close>
  The root reducer of a store works on any state type; the absent state is \<open>None\<close>.
  The reducers that \<^verbatim>\<open>combineReducers\<close> composes work on values, and the state of
  the composed reducer is an object (or \<^verbatim>\<open>undefined\<close>, at the first call).
\<close>

type_synonym 's reducer = "'s option \<Rightarrow> action \<Rightarrow> 's"

type_synonym reducers = "(string \<times> (jsval \<Rightarrow> action \<Rightarrow> jsval)) list"

text \<open>The own properties that an object spread \<^verbatim>\<open>{...x}\<close> copies.\<close>

fun own_props :: "jsval \<Rightarrow> (string \<times> jsval) list" where
  "own_props (Obj r ps) = ps"
| "own_props x = []"

text \<open>
  \<^verbatim>\<open>
  export function combineReducers(reducers) {
      return (prevState = {}, action) =>
          Object.entries(reducers).reduce((acc, [field, reducer]) => {
              const prevSubState = acc[field];
              const nextSubState = reducer(prevSubState, action);
              return prevSubState !== nextSubState
                  ? { ...acc, [field]: nextSubState }
                  : acc;
          }, prevState);
  }
  \<close>
  The mapping is given by its entries, in the order of \<^verbatim>\<open>Object.entries\<close>;
  \<open>reduce_callback\<close> is the arrow function passed to \<^verbatim>\<open>reduce\<close>. Both object
  literals allocate: the model threads the next free reference, takes it for the new object
  and returns its successor. \<open>AList.update\<close> overwrites the property where it stands, or
  appends it, as the spread followed by the computed property does.
\<close>

definition reduce_callback :: "action \<Rightarrow> jsval \<times> nat \<Rightarrow> string \<times> (jsval \<Rightarrow> action \<Rightarrow> jsval) \<Rightarrow> jsval \<times> nat" where
  "reduce_callback action = (\<lambda>(acc, n) (field, reducer).
     let prevSubState = get_prop acc field;
         nextSubState = reducer prevSubState action
     in if \<not> strict_eq prevSubState nextSubState
        then (Obj n (AList.update field nextSubState (own_props acc)), Suc n)
        else (acc, n))"

definition combineReducers :: "reducers \<Rightarrow> jsval \<Rightarrow> action \<Rightarrow> nat \<Rightarrow> jsval \<times> nat" where
  "combineReducers reducers prevState action next_ref =
     foldl (reduce_callback action)
       (if strict_eq prevState Undefined then (Obj next_ref [], Suc next_ref)
        else (prevState, next_ref))
       reducers"

text \<open>
  The latest value of a field after an action: the value that the field's reducer returns
  for the previous sub-state, where it is a new one; the previous sub-state itself, where
  the reducer returns a value that is \<^verbatim>\<open>===\<close> to it.
\<close>

definition latest :: "action \<Rightarrow> jsval \<Rightarrow> string \<Rightarrow> (jsval \<Rightarrow> action \<Rightarrow> jsval) \<Rightarrow> jsval" where
  "latest action prevState field reducer =
     (if strict_eq (get_prop prevState field) (reducer (get_prop prevState field) action)
      then get_prop prevState field
      else reducer (get_prop prevState field) action)"

text \<open>
  Two field reducers for the examples: \<^verbatim>\<open>(s = 0, a) => s\<close>, which never changes its
  sub-state, and \<^verbatim>\<open>(s = 0, a) => a.type === 'TEST' ? 7 : s\<close>.
\<close>

definition keep_reducer :: "jsval \<Rightarrow> action \<Rightarrow> jsval" where
  "keep_reducer s a = (if strict_eq s Undefined then Num 0 else s)"

definition set_reducer :: "jsval \<Rightarrow> action \<Rightarrow> jsval" where
  "set_reducer s a = (if type a = ''TEST'' then Num 7 else if strict_eq s Undefined then Num 0 else s)"

section \<open>The store\<close>

text \<open>
  \<^verbatim>\<open>
  export function createStore(rootReducer, rootEffect) {
      const action$ = new BehaviorSubject(createAction('@@INIT'));
      const effect$ = new Subject();
      const state$ = action$.pipe(
          scan(rootReducer, rootReducer(void 0, createAction('@@INIT/state'))),
          shareReplay(),
      );
      effect$
          .pipe(mergeMap(effect => effect(action$, state$)))
          .subscribe(action => action$.next(action));
      effect$.next(rootEffect);
      return { action$, state$ };
  }
  \<close>
  A store is the state of the subjects and operators that this function wires together,
  with the record of what went through them:
  \<^item> \<open>scan_reducer\<close>: the first argument of \<^verbatim>\<open>scan\<close>, the root reducer;
  \<^item> \<open>action_value\<close>: the current value of the \<^verbatim>\<open>BehaviorSubject\<close>;
  \<^item> \<open>action_logs\<close>: for every subscriber of \<^verbatim>\<open>action$\<close>, in subscription order,
    the values delivered to it so far;
  \<^item> \<open>scan_seed\<close>: the second argument of \<^verbatim>\<open>scan\<close>, evaluated when the pipe is built;
  \<^item> \<open>scan_acc\<close>: the accumulator of the one subscription that \<^verbatim>\<open>shareReplay\<close>
    makes to the \<^verbatim>\<open>scan\<close>; \<open>None\<close> until \<^verbatim>\<open>shareReplay\<close> has subscribed to
    its source, which it does for its first subscriber and keeps (its \<^verbatim>\<open>refCount\<close> is off);
  \<^item> \<open>scan_position\<close>: the number of subscribers of \<^verbatim>\<open>action$\<close> that subscribed
    before the \<^verbatim>\<open>scan\<close> did. A subject delivers a value to its observers in the
    order of their subscription, so these receive an action before the \<^verbatim>\<open>scan\<close> and
    the others after it;
  \<^item> \<open>replay_buffer\<close>: the events of the \<^verbatim>\<open>ReplaySubject\<close> inside
    \<^verbatim>\<open>shareReplay\<close>. Called without arguments, \<^verbatim>\<open>shareReplay\<close> takes
    \<^verbatim>\<open>bufferSize = Number.POSITIVE_INFINITY\<close> and an unbounded time window, so
    nothing is ever dropped from the buffer;
  \<^item> \<open>state_logs\<close>: for every subscriber of \<^verbatim>\<open>state$\<close>, the values delivered so far;
  \<^item> \<open>reducer_calls\<close>: the arguments of every call of \<^verbatim>\<open>rootReducer\<close>, in call order
    (what a spy around the reducer records);
  \<^item> \<open>effect_published\<close>: the values passed to \<^verbatim>\<open>effect$.next\<close>, where \<open>None\<close>
    is \<^verbatim>\<open>undefined\<close>, the value of \<^verbatim>\<open>rootEffect\<close> in a call without second argument
    (the signature declares the parameter as required);
  \<^item> \<open>effect_invoked\<close>: the effects that the \<^verbatim>\<open>mergeMap\<close> has called with the two streams
    and whose output it has subscribed to;
  \<^item> \<open>effect_failed\<close>: the effect pipeline has been stopped by an error.
\<close>

record 's store =
  scan_reducer :: "'s reducer"
  action_value :: action
  action_logs :: "action list list"
  scan_seed :: 's
  scan_acc :: "'s option"
  scan_position :: nat
  replay_buffer :: "'s list"
  state_logs :: "'s list list"
  reducer_calls :: "('s option \<times> action) list"
  effect_published :: "'s effect option list"
  effect_invoked :: "'s effect list"
  effect_failed :: bool

text \<open>\<^verbatim>\<open>ReplaySubject.next\<close>: the value is stored, then delivered to every subscriber.\<close>

definition replay_next :: "'s \<Rightarrow> 's store \<Rightarrow> 's store" where
  "replay_next v st =
     st\<lparr>replay_buffer := replay_buffer st @ [v],
        state_logs := map (\<lambda>log. log @ [v]) (state_logs st)\<rparr>"

text \<open>
  A value arriving at the \<^verbatim>\<open>scan\<close>: without a subscription nothing happens; with one,
  the reducer is called on the accumulator and the value, and its result is the new
  accumulator and the value passed on to \<^verbatim>\<open>shareReplay\<close>.
\<close>

definition scan_next :: "action \<Rightarrow> 's store \<Rightarrow> 's store" where
  "scan_next a st =
     (case scan_acc st of
        None \<Rightarrow> st
      | Some acc \<Rightarrow>
          let s = scan_reducer st (Some acc) a
          in replay_next s
               (st\<lparr>scan_acc := Some s,
                   reducer_calls := reducer_calls st @ [(Some acc, a)]\<rparr>))"

text \<open>
  \<^verbatim>\<open>action$.next(a)\<close>: the \<^verbatim>\<open>BehaviorSubject\<close> stores the value and delivers it to
  its observers, which are the subscribers of \<^verbatim>\<open>action$\<close> and the \<^verbatim>\<open>scan\<close>.
\<close>

definition action_next :: "action \<Rightarrow> 's store \<Rightarrow> 's store" where
  "action_next a st =
     scan_next a
       (st\<lparr>action_value := a,
           action_logs := map (\<lambda>log. log @ [a]) (action_logs st)\<rparr>)"

text \<open>\<^verbatim>\<open>action$.subscribe(...)\<close>: the new subscriber receives the current value at once.\<close>

definition action_subscribe :: "'s store \<Rightarrow> 's store" where
  "action_subscribe st = st\<lparr>action_logs := action_logs st @ [[action_value st]]\<rparr>"

text \<open>
  \<^verbatim>\<open>state$.subscribe(...)\<close>, that is the subscription function of \<^verbatim>\<open>shareReplay\<close>:
  \<^verbatim>\<open>
  if (!subject || hasError) {
      subject = new ReplaySubject(bufferSize, windowTime, scheduler);
      innerSub = subject.subscribe(this);
      subscription = source.subscribe({ next(value) { subject.next(value); }, ... });
  } else {
      innerSub = subject.subscribe(this);
  }
  \<close>
  \<^verbatim>\<open>subject.subscribe\<close> replays the whole buffer to the new subscriber (nothing, the first
  time). The first time, the source is subscribed after that: a \<^verbatim>\<open>scan\<close> subscription
  starts from the seed, and the \<^verbatim>\<open>BehaviorSubject\<close> delivers its current value to it
  at once.
\<close>

definition state_subscribe :: "'s store \<Rightarrow> 's store" where
  "state_subscribe st =
     (let st1 = st\<lparr>state_logs := state_logs st @ [replay_buffer st]\<rparr>
      in case scan_acc st1 of
           None \<Rightarrow>
             scan_next (action_value st1)
               (st1\<lparr>scan_acc := Some (scan_seed st1),
                    scan_position := length (action_logs st1)\<rparr>)
         | Some acc \<Rightarrow> st1)"

text \<open>
  \<^verbatim>\<open>effect$.next(effect)\<close>: the value reaches the \<^verbatim>\<open>mergeMap\<close>, which calls
  \<^verbatim>\<open>effect(action$, state$)\<close> and subscribes to the result. When the value is
  \<^verbatim>\<open>undefined\<close> the call raises a \<^verbatim>\<open>TypeError\<close>, which stops the pipeline.
\<close>

definition effect_next :: "'s effect option \<Rightarrow> 's store \<Rightarrow> 's store" where
  "effect_next effect st =
     (let st1 = st\<lparr>effect_published := effect_published st @ [effect]\<rparr>
      in if effect_failed st1 then st1
         else case effect of
                None \<Rightarrow> st1\<lparr>effect_failed := True\<rparr>
              | Some f \<Rightarrow> st1\<lparr>effect_invoked := effect_invoked st1 @ [f]\<rparr>)"

definition createStore :: "'s reducer \<Rightarrow> 's effect option \<Rightarrow> 's store" where
  "createStore rootReducer rootEffect =
     effect_next rootEffect
       \<lparr>scan_reducer = rootReducer,
        action_value = createAction ''@@INIT'' Undefined,
        action_logs = [],
        scan_seed = rootReducer None (createAction ''@@INIT/state'' Undefined),
        scan_acc = None,
        scan_position = 0,
        replay_buffer = [],
        state_logs = [],
        reducer_calls = [(None, createAction ''@@INIT/state'' Undefined)],
        effect_published = [],
        effect_invoked = [],
        effect_failed = False\<rparr>"

text \<open>
  The deliveries above are those that nothing interrupts. The library itself interrupts a
  delivery: the subscriber of the effect pipeline, \<^verbatim>\<open>action => action$.next(action)\<close>,
  publishes at once what the effect emits, and an effect that emits in one of its own
  observers does so while the action (or the state computed from it) that it reacts to has
  not yet reached the observers that subscribed later. So does a subscriber that dispatches
  from its callback. \<^verbatim>\<open>Subject.next\<close> copies the list of its observers and calls them in
  the order of their subscription, so the action published in between is delivered
  completely, to all observers, before the interrupted delivery goes on.

  A delivery is therefore a sequence of steps: the subscribers of \<^verbatim>\<open>action$\<close> that came
  before the \<^verbatim>\<open>scan\<close>, the \<^verbatim>\<open>scan\<close> (which calls the reducer and stores the new state in
  the replay buffer), the subscribers of \<^verbatim>\<open>state$\<close> (which receive that state), and the
  remaining subscribers of \<^verbatim>\<open>action$\<close>. The publishes made in between are placed
  between the steps by counting: the reaction \<open>(d, es)\<close> says that \<open>d\<close> steps after the
  previous reaction (or after the start of the delivery) the emissions \<open>es\<close> are made.
  An emission is the action published with the reactions to its own delivery.
\<close>

datatype emission = Emission action "(nat \<times> emission list) list"

type_synonym reactions = "(nat \<times> emission list) list"

datatype 'r delivery_step =
    ToSubscriber nat
  | ToScan
  | ToStateSubscriber nat
  | React 'r

text \<open>
  The steps in the order in which they happen: a reaction that is due comes before the next
  step, and the reactions that are left when the steps are over come then.
\<close>

fun schedule :: "'x list \<Rightarrow> (nat \<times> 'x list) list \<Rightarrow> 'x list" where
  "schedule steps [] = steps"
| "schedule steps ((0, rs) # reactions) = rs @ schedule steps reactions"
| "schedule [] ((Suc d, rs) # reactions) = rs @ schedule [] reactions"
| "schedule (s # steps) ((Suc d, rs) # reactions) = s # schedule steps ((d, rs) # reactions)"

definition delivery_order :: "'s store \<Rightarrow> 'r delivery_step list" where
  "delivery_order st =
     (let n = length (action_logs st); p = min (scan_position st) n
      in map ToSubscriber [0..<p] @
         (case scan_acc st of
            None \<Rightarrow> []
          | Some acc \<Rightarrow> ToScan # map ToStateSubscriber [0..<length (state_logs st)]) @
         map ToSubscriber [p..<n])"

definition notify_action :: "action \<Rightarrow> nat \<Rightarrow> 's store \<Rightarrow> 's store" where
  "notify_action a i st = st\<lparr>action_logs := (action_logs st)[i := action_logs st ! i @ [a]]\<rparr>"

definition notify_state :: "'s \<Rightarrow> nat \<Rightarrow> 's store \<Rightarrow> 's store" where
  "notify_state s j st = st\<lparr>state_logs := (state_logs st)[j := state_logs st ! j @ [s]]\<rparr>"

text \<open>
  The steps of the delivery of one action. The state that the \<^verbatim>\<open>scan\<close> computes in its
  step is the one that the subscribers of \<^verbatim>\<open>state$\<close> receive in theirs, whatever is
  computed by the deliveries in between: it is a local of the call, here the third argument.
  \<open>scan_store\<close> is what the step of the \<^verbatim>\<open>scan\<close> does to the store, as
  \<open>scan_next\<close> does it.
\<close>

definition scan_store :: "action \<Rightarrow> 's \<Rightarrow> 's store \<Rightarrow> 's store" where
  "scan_store a acc st =
     st\<lparr>scan_acc := Some (scan_reducer st (Some acc) a),
        reducer_calls := reducer_calls st @ [(Some acc, a)],
        replay_buffer := replay_buffer st @ [scan_reducer st (Some acc) a]\<rparr>"

fun deliver :: "action \<Rightarrow> ('s store \<Rightarrow> 's store) delivery_step list \<Rightarrow> 's option \<Rightarrow>
    's store \<Rightarrow> 's store" where
  "deliver a [] computed st = st"
| "deliver a (ToSubscriber i # steps) computed st = deliver a steps computed (notify_action a i st)"
| "deliver a (ToScan # steps) computed st =
     (case scan_acc st of
        None \<Rightarrow> deliver a steps computed st
      | Some acc \<Rightarrow> deliver a steps (Some (scan_reducer st (Some acc) a)) (scan_store a acc st))"
| "deliver a (ToStateSubscriber j # steps) computed st =
     (case computed of
        None \<Rightarrow> deliver a steps computed st
      | Some s \<Rightarrow> deliver a steps computed (notify_state s j st))"
| "deliver a (React f # steps) computed st = deliver a steps computed (f st)"

text \<open>
  \<^verbatim>\<open>action$.next(a)\<close> with the reactions to it: the \<^verbatim>\<open>BehaviorSubject\<close> stores the
  value, then delivers it.
\<close>

definition publish :: "action \<Rightarrow> (nat \<times> ('s store \<Rightarrow> 's store) list) list \<Rightarrow> 's store \<Rightarrow> 's store" where
  "publish a reactions st =
     deliver a (schedule (delivery_order st) (map (map_prod id (map React)) reactions)) None
       (st\<lparr>action_value := a\<rparr>)"

primrec emit :: "emission \<Rightarrow> 's store \<Rightarrow> 's store" where
  "emit (Emission a reactions) = publish a (map (map_prod id (map emit)) reactions)"

text \<open>
  What happens to a store after its construction. An effect is code of the caller: once the
  \<^verbatim>\<open>mergeMap\<close> has called it, all it can do to the store is what any holder of the two
  streams can do, namely subscribe to either, and emit an action on its output, which the
  pipeline's subscriber publishes. These are the events of the model:
  \<^item> \<open>Dispatch a\<close>: \<^verbatim>\<open>action$.next(a)\<close> called from outside, during whose delivery
    nothing is published;
  \<^item> \<open>EffectEmit a\<close>: the effect emits \<open>a\<close> while nothing is being delivered (from a
    timer, a promise or another source), and nothing is published during the delivery;
  \<^item> \<open>SubscribeAction\<close>, \<open>SubscribeState\<close>: a subscription to one of the streams,
    made while nothing is being delivered;
  \<^item> \<open>DispatchReacting a rs\<close>, \<open>EffectEmitReacting a rs\<close>: the same two publishes, with
    the emissions \<open>rs\<close> made during the delivery.
  An emission of the effect that starts a delivery needs a running pipeline: an effect that
  was invoked, and no failure.
\<close>

datatype event =
    Dispatch action
  | EffectEmit action
  | SubscribeAction
  | SubscribeState
  | DispatchReacting action reactions
  | EffectEmitReacting action reactions

definition pipeline_running :: "'s store \<Rightarrow> bool" where
  "pipeline_running st \<longleftrightarrow> effect_invoked st \<noteq> [] \<and> \<not> effect_failed st"

fun step :: "'s store \<Rightarrow> event \<Rightarrow> 's store" where
  "step st (Dispatch a) = action_next a st"
| "step st (EffectEmit a) = (if pipeline_running st then action_next a st else st)"
| "step st SubscribeAction = action_subscribe st"
| "step st SubscribeState = state_subscribe st"
| "step st (DispatchReacting a rs) = emit (Emission a rs) st"
| "step st (EffectEmitReacting a rs) =
     (if pipeline_running st then emit (Emission a rs) st else st)"

definition run :: "'s store \<Rightarrow> event list \<Rightarrow> 's store" where
  "run st events = foldl step st events"

text \<open>
  The state sequence of a manual fold: the reducer is folded over the actions from a seed,
  and the sequence holds the state reached after each action. The store's seed is
  \<^verbatim>\<open>R(undefined, { type: '@@INIT/state' })\<close>.
\<close>

definition fold_states :: "'s reducer \<Rightarrow> 's \<Rightarrow> action list \<Rightarrow> 's list" where
  "fold_states R seed actions =
     map (\<lambda>k. foldl (\<lambda>s a. R (Some s) a) seed (take k actions)) [1..<Suc (length actions)]"

definition manual_fold :: "'s reducer \<Rightarrow> action list \<Rightarrow> 's list" where
  "manual_fold R actions = fold_states R (R None INIT_STATE) actions"

text \<open>
  The actions that an emission publishes, and those that a list of events publishes into
  \<^verbatim>\<open>action$\<close>, in the order in which their publishing begins.
\<close>

primrec emitted :: "emission \<Rightarrow> action list" where
  "emitted (Emission a reactions) =
     a # concat (map (concat \<circ> snd) (map (map_prod id (map emitted)) reactions))"

fun published :: "bool \<Rightarrow> event list \<Rightarrow> action list" where
  "published running [] = []"
| "published running (Dispatch a # events) = a # published running events"
| "published running (EffectEmit a # events) =
     (if running then a # published running events else published running events)"
| "published running (SubscribeAction # events) = published running events"
| "published running (SubscribeState # events) = published running events"
| "published running (DispatchReacting a rs # events) =
     emitted (Emission a rs) @ published running events"
| "published running (EffectEmitReacting a rs # events) =
     (if running then emitted (Emission a rs) else []) @ published running events"

text \<open>
  Two inputs for the examples: a reducer that counts the actions it has folded,
  \<^verbatim>\<open>(state = 0, action) => state + 1\<close>, and an action that the library does not reserve.
\<close>

definition count_actions :: "nat reducer" where
  "count_actions state action = (case state of None \<Rightarrow> 0 | Some n \<Rightarrow> n) + 1"

definition TEST :: action where
  "TEST = createAction ''TEST'' Undefined"

text \<open>
  What one step of a delivery publishes (the emissions of a reaction), and what one step of
  the delivery of \<open>a\<close> hands to the \<open>k\<close>-th subscriber of \<^verbatim>\<open>action$\<close>.
\<close>

fun reacted :: "emission delivery_step \<Rightarrow> action list" where
  "reacted (React e) = emitted e"
| "reacted s = []"

fun received :: "nat \<Rightarrow> action \<Rightarrow> emission delivery_step \<Rightarrow> action list" where
  "received k a (ToSubscriber i) = (if i = k then [a] else [])"
| "received k a (React e) = emitted e"
| "received k a s = []"

text \<open>The actions that one step of the delivery of \<open>a\<close> hands to the reducer.\<close>

fun reduced :: "action \<Rightarrow> emission delivery_step \<Rightarrow> action list" where
  "reduced a ToScan = [a]"
| "reduced a (React e) = emitted e"
| "reduced a s = []"

text \<open>The events that carry no reaction.\<close>

fun plain :: "event \<Rightarrow> bool" where
  "plain (DispatchReacting a rs) = False"
| "plain (EffectEmitReacting a rs) = False"
| "plain e = True"

text \<open>
  Two predicates for the proofs. \<open>unconnected st st'\<close> relates a store to a later one:
  when the state stream has not been subscribed, it is still not, and nothing has reached
  the reducer or the buffer. \<open>first_state v st\<close> says that the \<^verbatim>\<open>scan\<close> is subscribed
  and that \<open>v\<close> is the first value of the buffer and of every subscriber of
  \<^verbatim>\<open>state$\<close>.
\<close>

definition unconnected :: "'s store \<Rightarrow> 's store \<Rightarrow> bool" where
  "unconnected st st' \<longleftrightarrow>
     (scan_acc st = None \<and> state_logs st = [] \<longrightarrow>
      scan_acc st' = None \<and> state_logs st' = [] \<and>
      replay_buffer st' = replay_buffer st \<and> reducer_calls st' = reducer_calls st)"

definition first_state :: "'s \<Rightarrow> 's store \<Rightarrow> bool" where
  "first_state v st \<longleftrightarrow>
     scan_acc st \<noteq> None \<and> replay_buffer st \<noteq> [] \<and> hd (replay_buffer st) = v \<and>
     (\<forall>log \<in> set (state_logs st). log \<noteq> [] \<and> hd log = v)"

section \<open>Properties of action construction\<close>

lemma strict_eq_Undefined: "strict_eq p Undefined \<longleftrightarrow> p = Undefined"
  by (cases p) simp_all

text \<open>
  C8, as stated: \<^verbatim>\<open>createAction\<close> called with an empty action type raises an error
  instead of returning an action that carries the empty type. The code returns the action:
  at the empty string the result is the object \<^verbatim>\<open>{ type: '' }\<close>.
\<close>

theorem createAction_empty_type_counterexample:
  "createAction '''' Undefined = \<lparr>type = '''', payload = None\<rparr>"
  by (simp add: createAction_def)

text \<open>
  C8, amended: \<^verbatim>\<open>createAction\<close> validates nothing. For every type string, the empty
  one included, and every payload it returns an action whose \<^verbatim>\<open>type\<close> is the string it
  was given; the action has a \<^verbatim>\<open>payload\<close> property exactly when the payload argument is
  not \<^verbatim>\<open>undefined\<close>, and then the property is that argument.
\<close>

theorem createAction_total:
  "type (createAction t p) = t \<and>
   payload (createAction t p) = (if p = Undefined then None else Some p)"
  by (simp add: createAction_def strict_eq_Undefined)

theorem createAction_total_witness:
  "type (createAction '''' (Num 1)) = '''' \<and> payload (createAction '''' (Num 1)) = Some (Num 1)"
  using createAction_total [of "''''" "Num 1"] by simp

section \<open>Properties of the selector\<close>

text \<open>
  How \<^verbatim>\<open>distinctUntilChanged\<close> treats one more value: with the key it started from while
  it has emitted nothing, and with the last value it emitted afterwards.
\<close>

lemma distinctUntilChanged_from_snoc:
  "distinctUntilChanged_from key (source @ [(t, v)]) =
     (let out = distinctUntilChanged_from key source;
          k = (if out = [] then key else Some (snd (last out)))
      in if (case k of None \<Rightarrow> False | Some k' \<Rightarrow> strict_eq k' v) then out else out @ [(t, v)])"
proof (induction source arbitrary: key)
  case Nil
  show ?case by (simp add: Let_def)
next
  case (Cons e source)
  obtain u w where e: "e = (u, w)" by (cases e)
  show ?case
  proof (cases "case key of None \<Rightarrow> False | Some k \<Rightarrow> strict_eq k w")
    case True
    then show ?thesis using Cons.IH [of key] by (simp add: e Let_def)
  next
    case False
    then show ?thesis using Cons.IH [of "Some w"] by (simp add: e Let_def)
  qed
qed

lemma select_projection:
  "select pathOrMapper paths source =
     distinctUntilChanged (map_op (projection pathOrMapper paths) source)"
  by (cases pathOrMapper) (simp_all add: select_def pluck_def projection_def map_op_def)

text \<open>
  C9: for every source sequence, in mapper mode and in path mode, the derived stream emits the
  projection of the next source value if and only if it has emitted nothing yet or the
  projection is not \<^verbatim>\<open>===\<close> to the last projection it emitted; otherwise the
  value is suppressed. The comparison is with the last emitted projection.
\<close>

theorem select_emits_iff_changed:
  "select pathOrMapper paths (source @ [(t, x)]) =
     (if select pathOrMapper paths source = [] \<or>
         \<not> strict_eq (snd (last (select pathOrMapper paths source))) (projection pathOrMapper paths x)
      then select pathOrMapper paths source @ [(t, projection pathOrMapper paths x)]
      else select pathOrMapper paths source)"
  by (simp add: select_projection distinctUntilChanged_def map_op_def
      distinctUntilChanged_from_snoc Let_def)

theorem select_emits_iff_changed_witness:
  "select (Path ''a'') [''b'']
     ([(2, Obj 10 [(''a'', Obj 11 [(''b'', Num 1)])])] @ [(5, Obj 12 [(''a'', Obj 13 [(''b'', Num 1)])])]) =
     [(2, Num 1)] \<and>
   select (Path ''a'') [''b'']
     ([(2, Obj 10 [(''a'', Obj 11 [(''b'', Num 1)])])] @ [(5, Obj 12 [(''a'', Obj 13 [(''b'', Num 2)])])]) =
     [(2, Num 1), (5, Num 2)]"
proof -
  have out: "select (Path ''a'') [''b''] [(2, Obj 10 [(''a'', Obj 11 [(''b'', Num 1)])])] = [(2, Num 1)]"
    by (simp add: select_def pluck_def map_op_def distinctUntilChanged_def)
  have p1: "projection (Path ''a'') [''b''] (Obj 12 [(''a'', Obj 13 [(''b'', Num 1)])]) = Num 1"
    and p2: "projection (Path ''a'') [''b''] (Obj 12 [(''a'', Obj 13 [(''b'', Num 2)])]) = Num 2"
    by (simp_all add: projection_def)
  from select_emits_iff_changed [of "Path ''a''" "[''b'']"
      "[(2, Obj 10 [(''a'', Obj 11 [(''b'', Num 1)])])]" 5 "Obj 12 [(''a'', Obj 13 [(''b'', Num 1)])]"]
    select_emits_iff_changed [of "Path ''a''" "[''b'']"
      "[(2, Obj 10 [(''a'', Obj 11 [(''b'', Num 1)])])]" 5 "Obj 12 [(''a'', Obj 13 [(''b'', Num 2)])]"]
  show ?thesis
    by (simp add: out p1 p2)
qed

text \<open>
  Two consequences for the whole output: no two values that follow each other in it are
  \<^verbatim>\<open>===\<close>, and a mapper-mode selector whose function is the identity emits a
  \<^verbatim>\<open>NaN\<close> every time, since \<^verbatim>\<open>NaN === NaN\<close> is false.
\<close>

lemma distinctUntilChanged_from_head:
  "distinctUntilChanged_from (Some k) source = (t, v) # out \<Longrightarrow> \<not> strict_eq k v"
proof (induction source)
  case Nil
  then show ?case by simp
next
  case (Cons e source)
  obtain u w where e: "e = (u, w)" by (cases e)
  show ?case using Cons by (auto simp: e split: if_splits)
qed

lemma distinctUntilChanged_from_adjacent:
  "Suc i < length (distinctUntilChanged_from key source) \<Longrightarrow>
   \<not> strict_eq (snd (distinctUntilChanged_from key source ! i))
       (snd (distinctUntilChanged_from key source ! Suc i))"
proof (induction source arbitrary: key i)
  case Nil
  then show ?case by simp
next
  case (Cons e source)
  obtain u w where e: "e = (u, w)" by (cases e)
  show ?case
  proof (cases "case key of None \<Rightarrow> False | Some k \<Rightarrow> strict_eq k w")
    case True
    then show ?thesis using Cons.IH [of i key] Cons.prems by (simp add: e)
  next
    case False
    then have out: "distinctUntilChanged_from key (e # source) =
        (u, w) # distinctUntilChanged_from (Some w) source"
      by (simp add: e)
    show ?thesis
    proof (cases i)
      case 0
      then obtain t v rest where r: "distinctUntilChanged_from (Some w) source = (t, v) # rest"
        using Cons.prems out by (cases "distinctUntilChanged_from (Some w) source") auto
      from distinctUntilChanged_from_head [OF r] show ?thesis
        by (simp add: out r 0)
    next
      case (Suc j)
      then show ?thesis using Cons.IH [of j "Some w"] Cons.prems by (simp add: out)
    qed
  qed
qed

lemma select_no_adjacent_duplicates:
  "Suc i < length (select pathOrMapper paths source) \<Longrightarrow>
   \<not> strict_eq (snd (select pathOrMapper paths source ! i))
       (snd (select pathOrMapper paths source ! Suc i))"
  unfolding select_projection distinctUntilChanged_def
  by (rule distinctUntilChanged_from_adjacent)

lemma select_NaN_repeated:
  "select (Mapper (\<lambda>x. x)) [] [(2, NaN), (3, NaN)] = [(2, NaN), (3, NaN)]"
  by (simp add: select_def map_op_def distinctUntilChanged_def)

section \<open>Properties of effect composition\<close>

text \<open>
  C10: \<^verbatim>\<open>combineEffects()\<close> without effects is an effect whose output, for every action
  stream and every state stream, emits no action.
\<close>

theorem combineEffects_no_effects:
  "combineEffects [] action state = []"
  by (simp add: combineEffects_def merge_def)

theorem combineEffects_no_effects_witness:
  "combineEffects [] [(0, TEST)] [(0, 1::nat)] = []"
  using combineEffects_no_effects [of "[(0, TEST)]" "[(0, 1::nat)]"] by simp

lemma merge2_Nil_right: "merge2 left [] = left"
  by (cases left) simp_all

lemma combineEffects_single: "combineEffects [effect] action state = effect action state"
  by (simp add: combineEffects_def merge_def merge2_Nil_right)

section \<open>Properties of reducer composition\<close>

lemma reduce_callback_unchanged:
  "strict_eq (get_prop acc f) (red (get_prop acc f) a) \<Longrightarrow>
   reduce_callback a (acc, n) (f, red) = (acc, n)"
  by (simp add: reduce_callback_def Let_def)

lemma reduce_callback_changed:
  "\<not> strict_eq (get_prop acc f) (red (get_prop acc f) a) \<Longrightarrow>
   reduce_callback a (acc, n) (f, red) =
     (Obj n (AList.update f (red (get_prop acc f) a) (own_props acc)), Suc n)"
  by (simp add: reduce_callback_def Let_def)

lemma combineReducers_object:
  "combineReducers reducers (Obj r ps) action next_ref =
     foldl (reduce_callback action) (Obj r ps, next_ref) reducers"
  by (simp add: combineReducers_def)

text \<open>When no reducer changes its field, the loop hands the accumulator through.\<close>

lemma foldl_unchanged:
  "\<forall>(f, red) \<in> set reducers. strict_eq (get_prop acc f) (red (get_prop acc f) a) \<Longrightarrow>
   foldl (reduce_callback a) (acc, n) reducers = (acc, n)"
proof (induction reducers)
  case Nil
  show ?case by simp
next
  case (Cons e reducers)
  obtain f red where e: "e = (f, red)" by (cases e)
  from Cons.prems have "strict_eq (get_prop acc f) (red (get_prop acc f) a)"
    by (simp add: e)
  then have "reduce_callback a (acc, n) e = (acc, n)"
    by (simp add: e reduce_callback_unchanged)
  then show ?case using Cons by simp
qed

text \<open>
  The fields of the result. Every key occurs once among the entries, so the reducer of a
  field reads the field of the previous aggregate, whatever the earlier entries changed.
\<close>

lemma foldl_fields:
  "distinct (map fst reducers) \<Longrightarrow>
   get_prop (fst (foldl (reduce_callback a) (Obj r ps, n) reducers)) g =
     (case map_of reducers g of
        None \<Rightarrow> get_prop (Obj r ps) g
      | Some red \<Rightarrow> latest a (Obj r ps) g red)"
proof (induction reducers arbitrary: r ps n)
  case Nil
  show ?case by simp
next
  case (Cons e reducers)
  obtain f red where e: "e = (f, red)" by (cases e)
  from Cons.prems have d: "distinct (map fst reducers)" and nf: "f \<notin> fst ` set reducers"
    by (simp_all add: e)
  from nf have none: "map_of reducers f = None"
    by (simp add: map_of_eq_None_iff)
  let ?prev = "get_prop (Obj r ps) f"
  let ?v = "red ?prev a"
  show ?case
  proof (cases "strict_eq ?prev ?v")
    case True
    then have "reduce_callback a (Obj r ps, n) (f, red) = (Obj r ps, n)"
      by (rule reduce_callback_unchanged)
    moreover have "latest a (Obj r ps) f red = ?prev"
      using True by (simp add: latest_def del: get_prop.simps)
    ultimately show ?thesis using Cons.IH [OF d, of r ps n] none
      by (simp add: e del: get_prop.simps split: option.splits)
  next
    case False
    let ?acc = "Obj n (AList.update f ?v ps)"
    from False have step: "reduce_callback a (Obj r ps, n) (f, red) = (?acc, Suc n)"
      by (simp add: reduce_callback_changed del: get_prop.simps)
    have other: "get_prop ?acc h = get_prop (Obj r ps) h" if "h \<noteq> f" for h
      using that by (simp add: update_conv')
    have same: "get_prop ?acc f = ?v"
      by (simp add: update_conv')
    have lat: "latest a (Obj r ps) f red = ?v"
      using False by (simp add: latest_def del: get_prop.simps)
    have ih: "get_prop (fst (foldl (reduce_callback a) (?acc, Suc n) reducers)) g =
        (case map_of reducers g of None \<Rightarrow> get_prop ?acc g | Some red' \<Rightarrow> latest a ?acc g red')"
      by (rule Cons.IH [OF d])
    show ?thesis
    proof (cases "g = f")
      case True
      with ih none same lat show ?thesis
        by (simp add: e step del: get_prop.simps)
    next
      case neq: False
      have "latest a ?acc g red' = latest a (Obj r ps) g red'" for red'
        using other [OF neq] by (simp add: latest_def del: get_prop.simps)
      with ih neq other [OF neq] show ?thesis
        by (simp add: e step del: get_prop.simps split: option.splits)
    qed
  qed
qed

text \<open>
  The reference of the result: the loop returns an object, which is the object it started
  from, with nothing allocated, or an object allocated by the loop.
\<close>

lemma foldl_shape:
  "\<exists>r' ps'. fst (foldl (reduce_callback a) (Obj r ps, n) reducers) = Obj r' ps' \<and>
     n \<le> snd (foldl (reduce_callback a) (Obj r ps, n) reducers) \<and>
     (r' = r \<and> ps' = ps \<and> snd (foldl (reduce_callback a) (Obj r ps, n) reducers) = n \<or>
      n \<le> r' \<and> r' < snd (foldl (reduce_callback a) (Obj r ps, n) reducers))"
proof (induction reducers arbitrary: r ps n)
  case Nil
  show ?case by simp
next
  case (Cons e reducers)
  obtain f red where e: "e = (f, red)" by (cases e)
  let ?prev = "get_prop (Obj r ps) f"
  let ?v = "red ?prev a"
  show ?case
  proof (cases "strict_eq ?prev ?v")
    case True
    then have "reduce_callback a (Obj r ps, n) (f, red) = (Obj r ps, n)"
      by (rule reduce_callback_unchanged)
    then show ?thesis using Cons.IH [of r ps n] by (simp add: e del: get_prop.simps)
  next
    case False
    let ?ps = "AList.update f ?v ps"
    from False have step: "reduce_callback a (Obj r ps, n) (f, red) = (Obj n ?ps, Suc n)"
      by (simp add: reduce_callback_changed del: get_prop.simps)
    from Cons.IH [of n ?ps "Suc n"] show ?thesis
      by (auto simp: e step simp del: get_prop.simps)
  qed
qed

lemma foldl_changed:
  assumes "(f, red) \<in> set reducers"
    and "\<not> strict_eq (get_prop (Obj r ps) f) (red (get_prop (Obj r ps) f) a)"
  shows "snd (foldl (reduce_callback a) (Obj r ps, n) reducers) \<noteq> n"
  using assms
proof (induction reducers arbitrary: r ps n)
  case Nil
  then show ?case by simp
next
  case (Cons e reducers)
  obtain g red' where e: "e = (g, red')" by (cases e)
  let ?prev = "get_prop (Obj r ps) g"
  let ?v = "red' ?prev a"
  show ?case
  proof (cases "strict_eq ?prev ?v")
    case True
    then have rc: "reduce_callback a (Obj r ps, n) (g, red') = (Obj r ps, n)"
      by (rule reduce_callback_unchanged)
    from True Cons.prems(1,2) have "(f, red) \<in> set reducers"
      by (auto simp: e)
    from Cons.IH [OF this Cons.prems(2), of n] show ?thesis
      by (simp add: e rc del: get_prop.simps)
  next
    case False
    let ?ps = "AList.update g ?v ps"
    from False have step: "reduce_callback a (Obj r ps, n) (g, red') = (Obj n ?ps, Suc n)"
      by (simp add: reduce_callback_changed del: get_prop.simps)
    from foldl_shape [of a n ?ps "Suc n" reducers] show ?thesis
      by (auto simp: e step simp del: get_prop.simps)
  qed
qed

text \<open>
  C7: let the entries of the reducer mapping have distinct keys (as \<^verbatim>\<open>Object.entries\<close>
  gives them) and let the previous aggregate be an object allocated before the call (its
  reference is below the next free one). If every field's reducer returns a value
  \<^verbatim>\<open>===\<close> to the field's previous sub-state, the composed reducer returns the previous
  aggregate itself and allocates nothing. If some field's reducer returns a value that is not
  \<^verbatim>\<open>===\<close> to the previous sub-state, the composed reducer returns an object allocated
  during the call, so with another reference than the previous aggregate, in which every field
  of the mapping holds its latest value and every other property is the previous aggregate's.
\<close>

theorem combineReducers_reference_stable:
  assumes "distinct (map fst reducers)" and "r < next_ref"
  shows
    "((\<forall>(field, reducer) \<in> set reducers.
         strict_eq (get_prop (Obj r ps) field) (reducer (get_prop (Obj r ps) field) action)) \<longrightarrow>
       combineReducers reducers (Obj r ps) action next_ref = (Obj r ps, next_ref)) \<and>
     ((\<exists>(field, reducer) \<in> set reducers.
         \<not> strict_eq (get_prop (Obj r ps) field) (reducer (get_prop (Obj r ps) field) action)) \<longrightarrow>
       (\<exists>r' ps'. fst (combineReducers reducers (Obj r ps) action next_ref) = Obj r' ps' \<and>
          r' \<noteq> r \<and> next_ref \<le> r' \<and>
          r' < snd (combineReducers reducers (Obj r ps) action next_ref) \<and>
          (\<forall>(field, reducer) \<in> set reducers.
             get_prop (Obj r' ps') field = latest action (Obj r ps) field reducer) \<and>
          (\<forall>field. field \<notin> fst ` set reducers \<longrightarrow>
             get_prop (Obj r' ps') field = get_prop (Obj r ps) field)))"
proof (intro conjI impI)
  assume "\<forall>(field, reducer) \<in> set reducers.
    strict_eq (get_prop (Obj r ps) field) (reducer (get_prop (Obj r ps) field) action)"
  then show "combineReducers reducers (Obj r ps) action next_ref = (Obj r ps, next_ref)"
    unfolding combineReducers_object by (rule foldl_unchanged)
next
  assume "\<exists>(field, reducer) \<in> set reducers.
    \<not> strict_eq (get_prop (Obj r ps) field) (reducer (get_prop (Obj r ps) field) action)"
  then obtain f red where mem: "(f, red) \<in> set reducers"
    and ch: "\<not> strict_eq (get_prop (Obj r ps) f) (red (get_prop (Obj r ps) f) action)"
    by blast
  let ?res = "foldl (reduce_callback action) (Obj r ps, next_ref) reducers"
  from foldl_changed [OF mem ch] have moved: "snd ?res \<noteq> next_ref" .
  from foldl_shape [of action r ps next_ref reducers] moved
  obtain r' ps' where res: "fst ?res = Obj r' ps'" and fresh: "next_ref \<le> r'" "r' < snd ?res"
    by auto
  have fields: "get_prop (Obj r' ps') g =
      (case map_of reducers g of None \<Rightarrow> get_prop (Obj r ps) g
       | Some red' \<Rightarrow> latest action (Obj r ps) g red')" for g
    using foldl_fields [OF assms(1), of action r ps next_ref g] by (simp only: res)
  have "get_prop (Obj r' ps') g = latest action (Obj r ps) g red'"
    if "(g, red') \<in> set reducers" for g red'
    using fields [of g] map_of_is_SomeI [OF assms(1) that] by (simp del: get_prop.simps)
  moreover have "get_prop (Obj r' ps') g = get_prop (Obj r ps) g"
    if "g \<notin> fst ` set reducers" for g
    using fields [of g] that by (simp add: map_of_eq_None_iff [THEN iffD2] del: get_prop.simps)
  ultimately show "\<exists>r' ps'. fst (combineReducers reducers (Obj r ps) action next_ref) = Obj r' ps' \<and>
        r' \<noteq> r \<and> next_ref \<le> r' \<and>
        r' < snd (combineReducers reducers (Obj r ps) action next_ref) \<and>
        (\<forall>(field, reducer) \<in> set reducers.
           get_prop (Obj r' ps') field = latest action (Obj r ps) field reducer) \<and>
        (\<forall>field. field \<notin> fst ` set reducers \<longrightarrow>
           get_prop (Obj r' ps') field = get_prop (Obj r ps) field)"
    unfolding combineReducers_object using res fresh assms(2)
    by (intro exI [of _ r'] exI [of _ ps']) auto
qed

theorem combineReducers_reference_stable_witness:
  "distinct (map fst [(''a'', keep_reducer), (''b'', set_reducer)]) \<and> (11::nat) < 12 \<and>
   combineReducers [(''a'', keep_reducer), (''b'', set_reducer)]
       (Obj 11 [(''a'', Num 0), (''b'', Num 1)]) INIT 12 =
     (Obj 11 [(''a'', Num 0), (''b'', Num 1)], 12) \<and>
   (\<exists>r' ps'. fst (combineReducers [(''a'', keep_reducer), (''b'', set_reducer)]
         (Obj 11 [(''a'', Num 0), (''b'', Num 1)]) TEST 12) = Obj r' ps' \<and>
      r' \<noteq> 11 \<and> get_prop (Obj r' ps') ''a'' = Num 0 \<and> get_prop (Obj r' ps') ''b'' = Num 7)"
proof -
  let ?rs = "[(''a'', keep_reducer), (''b'', set_reducer)]"
  let ?ps = "[(''a'', Num 0), (''b'', Num 1)]"
  have d: "distinct (map fst ?rs)" by simp
  have lt: "(11::nat) < 12" by simp
  have same: "\<forall>(field, reducer) \<in> set ?rs.
      strict_eq (get_prop (Obj 11 ?ps) field) (reducer (get_prop (Obj 11 ?ps) field) INIT)"
    by (simp add: keep_reducer_def set_reducer_def INIT_def createAction_def)
  have new: "\<exists>(field, reducer) \<in> set ?rs.
      \<not> strict_eq (get_prop (Obj 11 ?ps) field) (reducer (get_prop (Obj 11 ?ps) field) TEST)"
    by (simp add: keep_reducer_def set_reducer_def TEST_def createAction_def)
  have la: "latest TEST (Obj 11 ?ps) ''a'' keep_reducer = Num 0"
    and lb: "latest TEST (Obj 11 ?ps) ''b'' set_reducer = Num 7"
    by (simp_all add: latest_def keep_reducer_def set_reducer_def TEST_def createAction_def)
  from combineReducers_reference_stable [OF d lt, of ?ps INIT] same
  have 1: "combineReducers ?rs (Obj 11 ?ps) INIT 12 = (Obj 11 ?ps, 12)"
    by blast
  from combineReducers_reference_stable [OF d lt, of ?ps TEST] new
  obtain r' ps' where 2: "fst (combineReducers ?rs (Obj 11 ?ps) TEST 12) = Obj r' ps'"
    "r' \<noteq> 11"
    "\<forall>(field, reducer) \<in> set ?rs. get_prop (Obj r' ps') field = latest TEST (Obj 11 ?ps) field reducer"
    by blast
  from 2(3) la lb have "get_prop (Obj r' ps') ''a'' = Num 0" "get_prop (Obj r' ps') ''b'' = Num 7"
    by (simp_all del: get_prop.simps)
  with d lt 1 2(1,2) show ?thesis by blast
qed

text \<open>
  At the first call the previous state is \<^verbatim>\<open>undefined\<close>: the default parameter makes a
  new empty object, and the loop starts from it.
\<close>

lemma combineReducers_first_call:
  "combineReducers reducers Undefined action next_ref =
     foldl (reduce_callback action) (Obj next_ref [], Suc next_ref) reducers"
  by (simp add: combineReducers_def)

section \<open>Properties of the store\<close>

subsection \<open>Deliveries and the publishes made during them\<close>

text \<open>
  A schedule holds the steps and the reactions it was made of, each once, and the steps of
  a delivery hold no reaction of their own.
\<close>

lemma set_schedule:
  "set (schedule steps reactions) = set steps \<union> set (concat (map snd reactions))"
  by (induction steps reactions rule: schedule.induct) auto

lemma map_schedule:
  "map f (schedule steps reactions) = schedule (map f steps) (map (map_prod id (map f)) reactions)"
  by (induction steps reactions rule: schedule.induct) simp_all

lemma mset_schedule:
  "mset (schedule steps reactions) = mset steps + mset (concat (map snd reactions))"
  by (induction steps reactions rule: schedule.induct) simp_all

lemma mset_concat_schedule:
  "mset (concat (map g (schedule steps reactions))) =
     mset (concat (map g steps)) + mset (concat (map g (concat (map snd reactions))))"
  by (induction steps reactions rule: schedule.induct) (simp_all add: ac_simps)

lemma concat_schedule:
  "\<forall>s \<in> set steps. g s = [] \<Longrightarrow>
   concat (map g (schedule steps reactions)) = concat (map g (concat (map snd reactions)))"
  by (induction steps reactions rule: schedule.induct) simp_all

lemma map_delivery_order:
  "map (map_delivery_step f) (delivery_order st) = delivery_order st"
  by (simp add: delivery_order_def Let_def comp_def split: option.splits)

lemma React_notin_delivery_order: "React r \<notin> set (delivery_order st)"
  by (auto simp: delivery_order_def Let_def split: option.splits)

text \<open>
  A relation between stores that is reflexive and transitive and that every step of a
  delivery establishes holds between the store before the delivery and the store after it.
\<close>

lemma deliver_rel:
  assumes refl: "\<And>st. Rel st st"
    and trans: "\<And>x y z. Rel x y \<Longrightarrow> Rel y z \<Longrightarrow> Rel x z"
    and na: "\<And>i st. Rel st (notify_action a i st)"
    and sc: "\<And>acc st. scan_acc st = Some acc \<Longrightarrow> Rel st (scan_store a acc st)"
    and ns: "\<And>s j st. Rel st (notify_state s j st)"
    and re: "\<And>f st. React f \<in> set steps \<Longrightarrow> Rel st (f st)"
  shows "Rel st (deliver a steps c st)"
  using re
proof (induction steps arbitrary: c st)
  case Nil
  show ?case by (simp add: refl)
next
  case (Cons x steps)
  have rest: "Rel st' (deliver a steps c' st')" for c' st'
    by (rule Cons.IH) (simp add: Cons.prems)
  show ?case
  proof (cases x)
    case (ToSubscriber i)
    from trans [OF na rest] show ?thesis by (simp add: ToSubscriber)
  next
    case ToScan
    show ?thesis
    proof (cases "scan_acc st")
      case None
      with rest show ?thesis by (simp add: ToScan)
    next
      case (Some acc)
      from trans [OF sc [OF Some] rest] show ?thesis by (simp add: ToScan Some)
    qed
  next
    case (ToStateSubscriber j)
    show ?thesis
    proof (cases c)
      case None
      with rest show ?thesis by (simp add: ToStateSubscriber)
    next
      case (Some s)
      from trans [OF ns rest] show ?thesis by (simp add: ToStateSubscriber Some)
    qed
  next
    case (React f)
    have "Rel st (f st)" by (rule Cons.prems) (simp add: React)
    from trans [OF this rest] show ?thesis by (simp add: React)
  qed
qed

text \<open>Induction on an emission, with the hypothesis for every emission of its reactions.\<close>

lemma emission_induct [case_names Emission]:
  assumes "\<And>a reactions. (\<And>e. e \<in> set (concat (map snd reactions)) \<Longrightarrow> P e) \<Longrightarrow>
    P (Emission a reactions)"
  shows "P e"
proof (induction e)
  case (Emission a reactions)
  show ?case
  proof (rule assms)
    fix e
    assume "e \<in> set (concat (map snd reactions))"
    then obtain r where r: "r \<in> set reactions" "e \<in> set (snd r)"
      by auto
    have "snd r \<in> Basic_BNFs.snds r"
      by (cases r) (simp add: prod_set_simps)
    from r(1) this r(2) show "P e"
      by (rule Emission.IH)
  qed
qed

lemma publish_emit:
  "publish a (map (map_prod id (map emit)) reactions) st =
     deliver a
       (map (map_delivery_step emit)
          (schedule (delivery_order st) (map (map_prod id (map React)) reactions)))
       None (st\<lparr>action_value := a\<rparr>)"
  by (simp add: publish_def map_schedule map_delivery_order prod.map_comp comp_def)

text \<open>The same for an emission and all the emissions inside it.\<close>

lemma emit_rel:
  assumes refl: "\<And>st. Rel st st"
    and trans: "\<And>x y z. Rel x y \<Longrightarrow> Rel y z \<Longrightarrow> Rel x z"
    and va: "\<And>a st. Rel st (st\<lparr>action_value := a\<rparr>)"
    and na: "\<And>a i st. Rel st (notify_action a i st)"
    and sc: "\<And>a acc st. scan_acc st = Some acc \<Longrightarrow> Rel st (scan_store a acc st)"
    and ns: "\<And>s j st. Rel st (notify_state s j st)"
  shows "Rel st (emit e st)"
proof (induction e arbitrary: st rule: emission_induct)
  case (Emission a reactions)
  let ?steps = "map (map_delivery_step emit)
      (schedule (delivery_order st) (map (map_prod id (map React)) reactions))"
  have re: "Rel st' (f st')" if "React f \<in> set ?steps" for f st'
  proof -
    from that obtain x where x: "x \<in> set (schedule (delivery_order st)
        (map (map_prod id (map React)) reactions))" and f: "React f = map_delivery_step emit x"
      by auto
    from f obtain e where "x = React e" "f = emit e"
      by (cases x) auto
    with x have "e \<in> set (concat (map snd reactions))"
      by (auto simp: set_schedule React_notin_delivery_order)
    with \<open>f = emit e\<close> show ?thesis by (simp add: Emission.IH)
  qed
  have "Rel (st\<lparr>action_value := a\<rparr>) (deliver a ?steps None (st\<lparr>action_value := a\<rparr>))"
  proof (rule deliver_rel [where Rel = Rel])
    show "Rel x x" for x by (rule refl)
    show "Rel x z" if "Rel x y" "Rel y z" for x y z using that by (rule trans)
    show "Rel x (notify_action a i x)" for i x by (rule na)
    show "Rel x (scan_store a acc x)" if "scan_acc x = Some acc" for acc x using that by (rule sc)
    show "Rel x (notify_state s j x)" for s j x by (rule ns)
    show "Rel x (f x)" if "React f \<in> set ?steps" for f x using that by (rule re)
  qed
  from trans [OF va this] show ?case
    by (simp add: publish_emit)
qed

lemmas store_ops = replay_next_def scan_next_def action_next_def action_subscribe_def
  state_subscribe_def pipeline_running_def Let_def

lemmas delivery_ops = notify_action_def notify_state_def scan_store_def

lemma emitted_nested:
  "emitted (Emission a reactions) = a # concat (map emitted (concat (map snd reactions)))"
  by (induction reactions) auto

lemma emitted_not_Nil: "emitted e \<noteq> []"
  by (cases e) simp

lemma reacted_delivery_order: "s \<in> set (delivery_order st) \<Longrightarrow> reacted s = []"
  by (auto simp: delivery_order_def Let_def split: option.splits)

text \<open>What no emission changes.\<close>

lemma emit_frame:
  "scan_reducer (emit e st) = scan_reducer st \<and> scan_seed (emit e st) = scan_seed st \<and>
   scan_position (emit e st) = scan_position st \<and>
   effect_published (emit e st) = effect_published st \<and>
   effect_invoked (emit e st) = effect_invoked st \<and>
   effect_failed (emit e st) = effect_failed st \<and>
   length (action_logs (emit e st)) = length (action_logs st) \<and>
   length (state_logs (emit e st)) = length (state_logs st)"
  by (rule emit_rel [where Rel = "\<lambda>st st'. scan_reducer st' = scan_reducer st \<and>
        scan_seed st' = scan_seed st \<and> scan_position st' = scan_position st \<and>
        effect_published st' = effect_published st \<and> effect_invoked st' = effect_invoked st \<and>
        effect_failed st' = effect_failed st \<and>
        length (action_logs st') = length (action_logs st) \<and>
        length (state_logs st') = length (state_logs st)"])
    (simp_all add: delivery_ops)

text \<open>Before the first subscription to the state stream an emission reaches no reducer.\<close>

lemma emit_unconnected:
  assumes "scan_acc st = None" "state_logs st = []"
  shows "scan_acc (emit e st) = None \<and> state_logs (emit e st) = [] \<and>
   replay_buffer (emit e st) = replay_buffer st \<and> reducer_calls (emit e st) = reducer_calls st"
proof -
  have "unconnected st (emit e st)"
  proof (rule emit_rel [where Rel = unconnected])
    show "unconnected x x" for x :: "'a store" by (simp add: unconnected_def)
    show "unconnected x z" if "unconnected x y" "unconnected y z" for x y z :: "'a store"
      using that unfolding unconnected_def by presburger
    show "unconnected x (x\<lparr>action_value := a\<rparr>)" for a and x :: "'a store"
      by (simp add: unconnected_def)
    show "unconnected x (notify_action a i x)" for a i and x :: "'a store"
      by (simp add: unconnected_def notify_action_def)
    show "unconnected x (scan_store a acc x)" if "scan_acc x = Some acc" for a acc and x :: "'a store"
      using that by (simp add: unconnected_def)
    show "unconnected x (notify_state s j x)" for s j and x :: "'a store"
      by (simp add: unconnected_def notify_state_def)
  qed
  with assms show ?thesis unfolding unconnected_def by blast
qed

text \<open>
  After it, every subscriber of the state stream has a first value, which is the first
  value of the buffer, and an emission adds values behind it.
\<close>

lemma first_stateD:
  "first_state v st \<Longrightarrow> scan_acc st \<noteq> None"
  "first_state v st \<Longrightarrow> replay_buffer st \<noteq> []"
  "first_state v st \<Longrightarrow> hd (replay_buffer st) = v"
  "first_state v st \<Longrightarrow> log \<in> set (state_logs st) \<Longrightarrow> log \<noteq> []"
  "first_state v st \<Longrightarrow> log \<in> set (state_logs st) \<Longrightarrow> hd log = v"
  unfolding first_state_def by blast+

lemma first_stateI:
  "scan_acc st \<noteq> None \<Longrightarrow> replay_buffer st \<noteq> [] \<Longrightarrow> hd (replay_buffer st) = v \<Longrightarrow>
   (\<And>log. log \<in> set (state_logs st) \<Longrightarrow> log \<noteq> [] \<and> hd log = v) \<Longrightarrow> first_state v st"
  unfolding first_state_def by blast

lemma notify_state_first_state:
  assumes fs: "first_state v x"
  shows "first_state v (notify_state s j x)"
proof (rule first_stateI)
  have eqs: "state_logs (notify_state s j x) = (state_logs x)[j := state_logs x ! j @ [s]]"
    "scan_acc (notify_state s j x) = scan_acc x"
    "replay_buffer (notify_state s j x) = replay_buffer x"
    by (simp_all add: notify_state_def)
  show "scan_acc (notify_state s j x) \<noteq> None" unfolding eqs by (rule first_stateD(1) [OF fs])
  show "replay_buffer (notify_state s j x) \<noteq> []" unfolding eqs by (rule first_stateD(2) [OF fs])
  show "hd (replay_buffer (notify_state s j x)) = v" unfolding eqs by (rule first_stateD(3) [OF fs])
  fix log
  assume "log \<in> set (state_logs (notify_state s j x))"
  then have mem: "log \<in> set ((state_logs x)[j := state_logs x ! j @ [s]])" unfolding eqs .
  show "log \<noteq> [] \<and> hd log = v"
  proof (cases "j < length (state_logs x)")
    case True
    from mem have "log \<in> insert (state_logs x ! j @ [s]) (set (state_logs x))"
      by (rule set_update_subset_insert [THEN subsetD])
    then have "log = state_logs x ! j @ [s] \<or> log \<in> set (state_logs x)" by blast
    moreover from True have old: "state_logs x ! j \<in> set (state_logs x)" by (rule nth_mem)
    have "state_logs x ! j \<noteq> []" "hd (state_logs x ! j) = v"
      using first_stateD(4,5) [OF fs old] by blast+
    then have "state_logs x ! j @ [s] \<noteq> [] \<and> hd (state_logs x ! j @ [s]) = v" by simp
    ultimately show ?thesis using first_stateD(4,5) [OF fs] by blast
  next
    case False
    then have "(state_logs x)[j := state_logs x ! j @ [s]] = state_logs x"
      by (simp add: list_update_beyond)
    with mem have "log \<in> set (state_logs x)" by simp
    then show ?thesis using first_stateD(4,5) [OF fs] by blast
  qed
qed

lemma first_state_cong:
  assumes fs: "first_state v x"
    and "scan_acc y \<noteq> None"
    and "\<exists>zs. replay_buffer y = replay_buffer x @ zs"
    and "state_logs y = state_logs x"
  shows "first_state v y"
proof (rule first_stateI)
  show "scan_acc y \<noteq> None" by fact
  from assms(3) obtain zs where zs: "replay_buffer y = replay_buffer x @ zs" by blast
  from first_stateD(2) [OF fs] zs show "replay_buffer y \<noteq> []" by simp
  from first_stateD(2,3) [OF fs] zs show "hd (replay_buffer y) = v" by simp
  fix log
  assume "log \<in> set (state_logs y)"
  then have "log \<in> set (state_logs x)" by (simp only: assms(4))
  then show "log \<noteq> [] \<and> hd log = v" using first_stateD(4,5) [OF fs] by blast
qed

lemma emit_first_state: "first_state v st \<Longrightarrow> first_state v (emit e st)"
proof -
  have "first_state v st \<longrightarrow> first_state v (emit e st)"
  proof (rule emit_rel [where Rel = "\<lambda>st st'. first_state v st \<longrightarrow> first_state v st'"])
    show "first_state v x \<longrightarrow> first_state v (notify_state s j x)" for s j x
      by (rule impI) (rule notify_state_first_state)
    show "first_state v x \<longrightarrow> first_state v x" for x
      by (rule impI)
    show "first_state v x \<longrightarrow> first_state v z"
      if "first_state v x \<longrightarrow> first_state v y" "first_state v y \<longrightarrow> first_state v z" for x y z
      using that by blast
    show "first_state v x \<longrightarrow> first_state v (x\<lparr>action_value := a\<rparr>)" for a x
    proof
      assume fs: "first_state v x"
      show "first_state v (x\<lparr>action_value := a\<rparr>)"
        by (rule first_state_cong [OF fs]) (use first_stateD(1) [OF fs] in simp_all)
    qed
    show "first_state v x \<longrightarrow> first_state v (notify_action a i x)" for a i x
    proof
      assume fs: "first_state v x"
      show "first_state v (notify_action a i x)"
        by (rule first_state_cong [OF fs])
          (use first_stateD(1) [OF fs] in \<open>simp_all add: notify_action_def\<close>)
    qed
    show "first_state v x \<longrightarrow> first_state v (scan_store a acc x)" for a acc x
    proof
      assume fs: "first_state v x"
      show "first_state v (scan_store a acc x)"
        by (rule first_state_cong [OF fs]) (simp_all add: scan_store_def)
    qed
  qed
  then show "first_state v st \<Longrightarrow> first_state v (emit e st)" by simp
qed

lemma snd_reactions: "concat (map snd (map (map_prod id (map f)) reactions)) = map f (concat (map snd reactions))"
  by (induction reactions) auto

lemma reacted_reactions:
  "concat (map reacted (concat (map snd (map (map_prod id (map React)) reactions)))) =
   concat (map emitted (concat (map snd reactions)))"
  unfolding snd_reactions by (induction "concat (map snd reactions)") (simp_all add: comp_def)

lemma received_reactions:
  "concat (map (received k a) (concat (map snd (map (map_prod id (map React)) reactions)))) =
   concat (map emitted (concat (map snd reactions)))"
  unfolding snd_reactions by (simp add: comp_def)

lemma reacted_React: "concat (map reacted (map React es)) = concat (map emitted es)"
  by (induction es) simp_all

lemma received_React: "concat (map (received k a) (map React es)) = concat (map emitted es)"
  by (induction es) simp_all

lemma last_emitted: "last (v # emitted e @ xs) = last (last (emitted e) # xs)"
  using emitted_not_Nil [of e] by (cases xs) simp_all

text \<open>The value that the action stream holds after a delivery and after an emission.\<close>

lemma deliver_action_value:
  assumes "\<And>e (st :: 's store). React e \<in> set sops \<Longrightarrow> action_value (emit e st) = last (emitted e)"
  shows "action_value (deliver a (map (map_delivery_step emit) sops) c (st :: 's store)) =
         last (action_value st # concat (map reacted sops))"
  using assms
proof (induction sops arbitrary: c st)
  case Nil
  show ?case by simp
next
  case (Cons x sops)
  have rest: "action_value (deliver a (map (map_delivery_step emit) sops) c' st') =
      last (action_value st' # concat (map reacted sops))" for c' and st' :: "'s store"
    by (rule Cons.IH) (simp add: Cons.prems)
  show ?case
  proof (cases x)
    case (ToSubscriber i)
    then show ?thesis by (simp add: rest notify_action_def)
  next
    case ToScan
    then show ?thesis by (simp add: rest scan_store_def split: option.splits)
  next
    case (ToStateSubscriber j)
    then show ?thesis by (simp add: rest notify_state_def split: option.splits)
  next
    case (React e)
    have "action_value (emit e st) = last (emitted e)"
      by (rule Cons.prems) (simp add: React)
    then show ?thesis by (simp add: React rest last_emitted del: last.simps)
  qed
qed

lemma emit_action_value: "action_value (emit e (st :: 's store)) = last (emitted e)"
proof (induction e arbitrary: st rule: emission_induct)
  case (Emission a reactions)
  let ?sops = "schedule (delivery_order st) (map (map_prod id (map React)) reactions)"
  have ih: "action_value (emit e st') = last (emitted e)" if "React e \<in> set ?sops" for e and st' :: "'s store"
  proof -
    from that have "e \<in> set (concat (map snd reactions))"
      by (auto simp: set_schedule React_notin_delivery_order)
    then show ?thesis by (rule Emission.IH)
  qed
  have "concat (map reacted ?sops) = concat (map emitted (concat (map snd reactions)))"
    by (simp only: concat_schedule [of "delivery_order st" reacted, OF ballI, OF reacted_delivery_order]
        reacted_reactions)
  then have "action_value (emit (Emission a reactions) st) =
      last (a # concat (map emitted (concat (map snd reactions))))"
    by (simp only: emit.simps publish_emit deliver_action_value [OF ih]) simp
  then show ?case by (simp only: emitted_nested)
qed

text \<open>What an emission hands to a subscriber of the action stream.\<close>

lemma received_subscribers:
  "concat (map (received k a \<circ> ToSubscriber) [lo..<hi]) = (if lo \<le> k \<and> k < hi then [a] else [])"
  by (induction hi) auto

lemma received_state_subscribers:
  "concat (map (received k a \<circ> ToStateSubscriber) js) = []"
  by (induction js) simp_all

lemma received_delivery_order:
  "k < length (action_logs st) \<Longrightarrow> concat (map (received k a) (delivery_order st)) = [a]"
  by (auto simp: delivery_order_def Let_def received_subscribers received_state_subscribers
      split: option.splits)

lemma deliver_action_log:
  assumes ih: "\<And>e (st :: 's store). React e \<in> set sops \<Longrightarrow> k < length (action_logs st) \<Longrightarrow>
      \<exists>ys. action_logs (emit e st) ! k = action_logs st ! k @ ys \<and> mset ys = mset (emitted e)"
    and k: "k < length (action_logs st)"
  shows "\<exists>ys. action_logs (deliver a (map (map_delivery_step emit) sops) c (st :: 's store)) ! k =
           action_logs st ! k @ ys \<and> mset ys = mset (concat (map (received k a) sops))"
  using assms
proof (induction sops arbitrary: c st)
  case Nil
  show ?case by simp
next
  case (Cons x sops)
  have rest: "\<exists>ys. action_logs (deliver a (map (map_delivery_step emit) sops) c' st') ! k =
      action_logs st' ! k @ ys \<and> mset ys = mset (concat (map (received k a) sops))"
    if "k < length (action_logs st')" for c' and st' :: "'s store"
    by (rule Cons.IH) (simp_all add: Cons.prems(1) that)
  note k = Cons.prems(2)
  show ?case
  proof (cases x)
    case (ToSubscriber i)
    from k have k': "k < length (action_logs (notify_action a i st))"
      by (simp add: notify_action_def)
    from rest [OF k', of c] obtain ys where ys:
      "action_logs (deliver a (map (map_delivery_step emit) sops) c (notify_action a i st)) ! k =
        action_logs (notify_action a i st) ! k @ ys"
      "mset ys = mset (concat (map (received k a) sops))"
      by blast
    have "action_logs (notify_action a i st) ! k = action_logs st ! k @ (if i = k then [a] else [])"
      using k by (simp add: notify_action_def nth_list_update)
    with ys show ?thesis
      by (intro exI [of _ "(if i = k then [a] else []) @ ys"]) (simp add: ToSubscriber)
  next
    case ToScan
    show ?thesis
    proof (cases "scan_acc st")
      case None
      with rest [OF k, of c] show ?thesis by (simp add: ToScan)
    next
      case (Some acc)
      from k have k': "k < length (action_logs (scan_store a acc st))"
        by (simp add: scan_store_def)
      have "action_logs (scan_store a acc st) = action_logs st"
        by (simp add: scan_store_def)
      with rest [OF k', of "Some (scan_reducer st (Some acc) a)"] show ?thesis
        by (simp add: ToScan Some)
    qed
  next
    case (ToStateSubscriber j)
    show ?thesis
    proof (cases c)
      case None
      with rest [OF k, of c] show ?thesis by (simp add: ToStateSubscriber)
    next
      case (Some s)
      from k have k': "k < length (action_logs (notify_state s j st))"
        by (simp add: notify_state_def)
      have "action_logs (notify_state s j st) = action_logs st"
        by (simp add: notify_state_def)
      with rest [OF k', of c] show ?thesis
        by (simp add: ToStateSubscriber Some)
    qed
  next
    case (React e)
    have "\<exists>ys. action_logs (emit e st) ! k = action_logs st ! k @ ys \<and> mset ys = mset (emitted e)"
      by (rule Cons.prems(1)) (simp_all add: React k)
    then obtain ys where ys: "action_logs (emit e st) ! k = action_logs st ! k @ ys"
      "mset ys = mset (emitted e)"
      by blast
    from k have k': "k < length (action_logs (emit e st))"
      by (simp add: emit_frame)
    from rest [OF k', of c] obtain zs where zs:
      "action_logs (deliver a (map (map_delivery_step emit) sops) c (emit e st)) ! k =
        action_logs (emit e st) ! k @ zs"
      "mset zs = mset (concat (map (received k a) sops))"
      by blast
    from ys zs show ?thesis
      by (intro exI [of _ "ys @ zs"]) (simp add: React)
  qed
qed

lemma emit_action_log:
  "k < length (action_logs (st :: 's store)) \<Longrightarrow>
   \<exists>ys. action_logs (emit e st) ! k = action_logs st ! k @ ys \<and> mset ys = mset (emitted e)"
proof (induction e arbitrary: st rule: emission_induct)
  case (Emission a reactions)
  let ?sops = "schedule (delivery_order st) (map (map_prod id (map React)) reactions)"
  have ih: "\<exists>ys. action_logs (emit e st') ! k = action_logs st' ! k @ ys \<and> mset ys = mset (emitted e)"
    if "React e \<in> set ?sops" "k < length (action_logs st')" for e and st' :: "'s store"
  proof -
    from that(1) have "e \<in> set (concat (map snd reactions))"
      by (auto simp: set_schedule React_notin_delivery_order)
    from this that(2) show ?thesis by (rule Emission.IH)
  qed
  from Emission.prems have k: "k < length (action_logs (st\<lparr>action_value := a\<rparr>))"
    by simp
  have rec: "mset (concat (map (received k a) ?sops)) =
      mset (a # concat (map emitted (concat (map snd reactions))))"
    by (simp only: mset_concat_schedule received_delivery_order [OF Emission.prems]
        received_reactions) simp
  from deliver_action_log [where sops = ?sops and k = k, OF ih k, of a None]
  show ?case
    by (simp only: emit.simps publish_emit emitted_nested rec) simp
qed

subsection \<open>Manual folds, published actions, runs\<close>

lemma fold_states_Nil: "fold_states R s [] = []"
  by (simp add: fold_states_def)

lemma fold_states_Cons:
  "fold_states R s (a # as) = R (Some s) a # fold_states R (R (Some s) a) as"
proof -
  have "[1..<Suc (Suc (length as))] = 1 # map Suc [1..<Suc (length as)]"
    by (simp add: upt_conv_Cons map_Suc_upt del: upt_Suc)
  then show ?thesis
    by (simp add: fold_states_def comp_def del: upt_Suc)
qed

lemma fold_states_append:
  "fold_states R s (as @ bs) =
     fold_states R s as @ fold_states R (foldl (\<lambda>s a. R (Some s) a) s as) bs"
  by (induction as arbitrary: s) (simp_all add: fold_states_Nil fold_states_Cons)

lemma length_fold_states: "length (fold_states R s as) = length as"
  by (simp add: fold_states_def del: upt_Suc)

lemma published_append:
  "published running (t @ u) = published running t @ published running u"
  by (induction running t rule: published.induct) (simp_all del: emitted.simps)

lemma published_Cons:
  "published running (e # t) = published running [e] @ published running t"
  using published_append [of running "[e]" t] by simp

lemma published_Dispatch: "published running (map Dispatch as) = as"
  by (induction as) simp_all

lemma published_replicate_SubscribeState:
  "published running (replicate n SubscribeState) = []"
  by (induction n) simp_all

lemma published_without_subscriptions:
  "published running (filter (\<lambda>e. e \<noteq> SubscribeState) t) = published running t"
  by (induction running t rule: published.induct) (simp_all del: emitted.simps)

lemma plain_Dispatch: "\<forall>e \<in> set (map Dispatch as). plain e"
  by simp

lemma run_append: "run st (t @ u) = run (run st t) u"
  by (simp add: run_def)

lemma run_Cons: "run st (e # t) = run (step st e) t"
  by (simp add: run_def)

lemma run_Nil: "run st [] = st"
  by (simp add: run_def)

subsection \<open>What no event changes\<close>

lemma step_frame:
  "scan_reducer (step st e) = scan_reducer st"
  "scan_seed (step st e) = scan_seed st"
  "effect_published (step st e) = effect_published st"
  "effect_invoked (step st e) = effect_invoked st"
  "effect_failed (step st e) = effect_failed st"
  by (cases e; simp add: store_ops emit_frame split: option.splits del: emit.simps)+

lemma step_running: "pipeline_running (step st e) = pipeline_running st"
  by (simp add: pipeline_running_def step_frame)

lemma run_frame:
  "scan_reducer (run st t) = scan_reducer st"
  "scan_seed (run st t) = scan_seed st"
  "effect_published (run st t) = effect_published st"
  "effect_invoked (run st t) = effect_invoked st"
  "effect_failed (run st t) = effect_failed st"
  by (induction t arbitrary: st; simp add: run_Nil run_Cons step_frame)+

lemma run_running: "pipeline_running (run st t) = pipeline_running st"
  by (simp add: pipeline_running_def run_frame)

lemma createStore_fields:
  "scan_reducer (createStore R eff) = R"
  "action_value (createStore R eff) = INIT"
  "action_logs (createStore R eff) = []"
  "scan_seed (createStore R eff) = R None INIT_STATE"
  "scan_acc (createStore R eff) = None"
  "replay_buffer (createStore R eff) = []"
  "state_logs (createStore R eff) = []"
  "reducer_calls (createStore R eff) = [(None, INIT_STATE)]"
  "effect_published (createStore R eff) = [eff]"
  "effect_invoked (createStore R eff) = (case eff of None \<Rightarrow> [] | Some f \<Rightarrow> [f])"
  "effect_failed (createStore R eff) = (eff = None)"
  by (simp_all add: createStore_def effect_next_def INIT_def INIT_STATE_def Let_def
      split: option.splits)

lemma createStore_running: "pipeline_running (createStore R eff) = (eff \<noteq> None)"
  by (cases eff) (simp_all add: pipeline_running_def createStore_fields)

subsection \<open>The number of subscribers\<close>

lemma step_length_logs:
  "length (state_logs (step st e)) = length (state_logs st) + count_list [e] SubscribeState"
  "length (action_logs (step st e)) = length (action_logs st) + count_list [e] SubscribeAction"
  by (cases e; simp add: store_ops emit_frame split: option.splits del: emit.simps)+

lemma count_list_Cons1: "count_list (e # t) x = count_list [e] x + count_list t x"
  by simp

lemma run_length_logs:
  "length (state_logs (run st t)) = length (state_logs st) + count_list t SubscribeState \<and>
   length (action_logs (run st t)) = length (action_logs st) + count_list t SubscribeAction"
proof (induction t arbitrary: st)
  case Nil
  show ?case by (simp add: run_Nil)
next
  case (Cons e t)
  show ?case
    unfolding run_Cons count_list_Cons1 [of e t] using Cons.IH [of "step st e"]
    by (simp only: step_length_logs add.assoc)
qed

lemma count_list_Dispatch: "count_list (map Dispatch as) SubscribeState = 0"
  by (induction as) simp_all

subsection \<open>The action stream\<close>

lemma last_emitted_Emission: "last (v # emitted (Emission a rs)) = last (emitted (Emission a rs))"
  by simp

lemma step_action_value:
  "action_value (step st e) = last (action_value st # published (pipeline_running st) [e])"
proof (cases e)
  case (DispatchReacting a rs)
  then show ?thesis
    by (simp add: emit_action_value last_emitted_Emission del: emit.simps emitted.simps last.simps)
next
  case (EffectEmitReacting a rs)
  then show ?thesis
    by (cases "pipeline_running st")
      (simp_all add: emit_action_value last_emitted_Emission emitted_not_Nil
        del: emit.simps emitted.simps)
qed (simp_all add: store_ops split: option.splits)

lemma run_action_value:
  "action_value (run st t) = last (action_value st # published (pipeline_running st) t)"
proof (induction t arbitrary: st)
  case Nil
  show ?case by (simp add: run_Nil)
next
  case (Cons e t)
  show ?case
    unfolding run_Cons published_Cons [of _ e t]
    by (simp add: Cons.IH step_running step_action_value del: published.simps step.simps)
qed

text \<open>
  A subscriber of the action stream receives what an event publishes, each action once; in
  the order of publishing when nothing is published during a delivery.
\<close>

lemma step_action_log_plain:
  "plain e \<Longrightarrow> k < length (action_logs st) \<Longrightarrow>
   action_logs (step st e) ! k = action_logs st ! k @ published (pipeline_running st) [e]"
  by (cases e; simp add: store_ops nth_append split: option.splits)

lemma step_action_log:
  assumes "k < length (action_logs st)"
  shows "\<exists>ys. action_logs (step st e) ! k = action_logs st ! k @ ys \<and>
           mset ys = mset (published (pipeline_running st) [e])"
proof (cases "plain e")
  case True
  from step_action_log_plain [OF True assms] show ?thesis by blast
next
  case False
  then consider a rs where "e = DispatchReacting a rs" | a rs where "e = EffectEmitReacting a rs"
    by (cases e) simp_all
  then show ?thesis
  proof cases
    case 1
    with emit_action_log [OF assms, of "Emission a rs"] show ?thesis
      by (simp del: emit.simps emitted.simps)
  next
    case 2
    with emit_action_log [OF assms, of "Emission a rs"] show ?thesis
      by (simp del: emit.simps emitted.simps)
  qed
qed

lemma run_action_log_plain:
  "\<forall>e \<in> set t. plain e \<Longrightarrow> k < length (action_logs st) \<Longrightarrow>
   action_logs (run st t) ! k = action_logs st ! k @ published (pipeline_running st) t"
proof (induction t arbitrary: st)
  case Nil
  show ?case by (simp add: run_Nil)
next
  case (Cons e t)
  from Cons.prems have e: "plain e" and t: "\<forall>e \<in> set t. plain e"
    by simp_all
  from Cons.prems have "k < length (action_logs (step st e))"
    by (simp add: step_length_logs(2) del: step.simps)
  from Cons.IH [OF t this] show ?case
    unfolding run_Cons published_Cons [of _ e t]
    by (simp only: step_action_log_plain [OF e Cons.prems(2)] step_running append.assoc)
qed

lemma run_action_log:
  "k < length (action_logs st) \<Longrightarrow>
   \<exists>ys. action_logs (run st t) ! k = action_logs st ! k @ ys \<and>
        mset ys = mset (published (pipeline_running st) t)"
proof (induction t arbitrary: st)
  case Nil
  show ?case by (simp add: run_Nil)
next
  case (Cons e t)
  from step_action_log [OF Cons.prems, of e] obtain ys
    where ys: "action_logs (step st e) ! k = action_logs st ! k @ ys"
      "mset ys = mset (published (pipeline_running st) [e])"
    by blast
  from Cons.prems have "k < length (action_logs (step st e))"
    by (simp add: step_length_logs(2) del: step.simps)
  from Cons.IH [OF this] obtain zs
    where zs: "action_logs (run (step st e) t) ! k = action_logs (step st e) ! k @ zs"
      "mset zs = mset (published (pipeline_running st) t)"
    unfolding step_running by blast
  have "action_logs (run st (e # t)) ! k = action_logs st ! k @ (ys @ zs)"
    by (simp only: run_Cons zs(1) ys(1) append.assoc)
  moreover have "mset (ys @ zs) = mset (published (pipeline_running st) (e # t))"
    unfolding published_Cons [of _ e t] by (simp only: mset_append ys(2) zs(2))
  ultimately show ?case by blast
qed

subsection \<open>The state stream before and after its first subscription\<close>

text \<open>
  Until \<^verbatim>\<open>state$\<close> is subscribed for the first time, no event reaches the reducer or
  the replay buffer.
\<close>

lemma step_unconnected:
  assumes "scan_acc st = None" and "state_logs st = []" and "e \<noteq> SubscribeState"
  shows "scan_acc (step st e) = None \<and> state_logs (step st e) = [] \<and>
         replay_buffer (step st e) = replay_buffer st \<and> reducer_calls (step st e) = reducer_calls st"
proof (cases "plain e")
  case True
  with assms show ?thesis by (cases e; simp add: store_ops)
next
  case False
  then consider a rs where "e = DispatchReacting a rs" | a rs where "e = EffectEmitReacting a rs"
    by (cases e) simp_all
  then show ?thesis
  proof cases
    case 1
    with emit_unconnected [OF assms(1,2), of "Emission a rs"] show ?thesis
      by (simp del: emit.simps)
  next
    case 2
    with emit_unconnected [OF assms(1,2), of "Emission a rs"] assms(1,2) show ?thesis
      by (simp del: emit.simps)
  qed
qed

lemma run_unconnected:
  assumes "scan_acc st = None" and "state_logs st = []" and "SubscribeState \<notin> set t"
  shows "scan_acc (run st t) = None \<and> state_logs (run st t) = [] \<and>
         replay_buffer (run st t) = replay_buffer st \<and> reducer_calls (run st t) = reducer_calls st"
  using assms
proof (induction t arbitrary: st)
  case Nil
  then show ?case by (simp add: run_Nil)
next
  case (Cons e t)
  then have e: "e \<noteq> SubscribeState" and t: "SubscribeState \<notin> set t"
    by auto
  note s = step_unconnected [OF Cons.prems(1,2) e]
  from s have "scan_acc (step st e) = None" "state_logs (step st e) = []" by blast+
  from Cons.IH [OF this t] s show ?case
    by (simp only: run_Cons)
qed

text \<open>The first subscription folds the current action into the seed.\<close>

lemma first_subscription:
  assumes "scan_acc st = None" and "replay_buffer st = []" and "state_logs st = []"
  shows "scan_acc (step st SubscribeState) =
           Some (scan_reducer st (Some (scan_seed st)) (action_value st))"
    and "replay_buffer (step st SubscribeState) =
           [scan_reducer st (Some (scan_seed st)) (action_value st)]"
    and "state_logs (step st SubscribeState) =
           [[scan_reducer st (Some (scan_seed st)) (action_value st)]]"
    and "reducer_calls (step st SubscribeState) =
           reducer_calls st @ [(Some (scan_seed st), action_value st)]"
  using assms by (simp_all add: store_ops)

text \<open>
  From then on, the first value of the buffer is the first value of every subscriber of
  the state stream, whatever is published and whoever subscribes.
\<close>

lemma action_next_first_state:
  assumes "first_state v st"
  shows "first_state v (action_next a st)"
proof (rule first_stateI)
  from first_stateD(1) [OF assms] obtain acc where acc: "scan_acc st = Some acc"
    by blast
  from acc show "scan_acc (action_next a st) \<noteq> None"
    by (simp add: store_ops)
  from acc first_stateD(2,3) [OF assms] show "replay_buffer (action_next a st) \<noteq> []"
    "hd (replay_buffer (action_next a st)) = v"
    by (simp_all add: store_ops)
  fix log
  assume "log \<in> set (state_logs (action_next a st))"
  with acc obtain old where "old \<in> set (state_logs st)" "log = old @ [scan_reducer st (Some acc) a]"
    by (auto simp: store_ops)
  with first_stateD(4,5) [OF assms, of old] show "log \<noteq> [] \<and> hd log = v"
    by simp
qed

lemma state_subscribe_first_state:
  assumes "first_state v st"
  shows "first_state v (state_subscribe st)"
proof (rule first_stateI)
  from first_stateD(1) [OF assms] obtain acc where acc: "scan_acc st = Some acc"
    by blast
  from acc show "scan_acc (state_subscribe st) \<noteq> None"
    by (simp add: store_ops)
  from acc first_stateD(2,3) [OF assms] show "replay_buffer (state_subscribe st) \<noteq> []"
    "hd (replay_buffer (state_subscribe st)) = v"
    by (simp_all add: store_ops)
  fix log
  assume "log \<in> set (state_logs (state_subscribe st))"
  with acc have "log \<in> set (state_logs st) \<or> log = replay_buffer st"
    by (auto simp: store_ops)
  with first_stateD(2,3) [OF assms] first_stateD(4,5) [OF assms, of log]
  show "log \<noteq> [] \<and> hd log = v"
    by auto
qed

lemma step_first_state:
  assumes "first_state v st"
  shows "first_state v (step st e)"
proof (cases e)
  case (Dispatch a)
  with action_next_first_state [OF assms] show ?thesis by simp
next
  case (EffectEmit a)
  with action_next_first_state [OF assms] assms show ?thesis by simp
next
  case SubscribeAction
  have "first_state v (action_subscribe st)"
    by (rule first_state_cong [OF assms])
      (use first_stateD(1) [OF assms] in \<open>simp_all add: action_subscribe_def\<close>)
  with SubscribeAction show ?thesis by simp
next
  case SubscribeState
  with state_subscribe_first_state [OF assms] show ?thesis by simp
next
  case (DispatchReacting a rs)
  with emit_first_state [OF assms] show ?thesis by (simp del: emit.simps)
next
  case (EffectEmitReacting a rs)
  with emit_first_state [OF assms] assms show ?thesis by (simp del: emit.simps)
qed

lemma run_first_state: "first_state v st \<Longrightarrow> first_state v (run st t)"
  by (induction t arbitrary: st) (simp_all add: run_Nil run_Cons step_first_state del: step.simps)

text \<open>
  When nothing is published during a delivery, every published action costs one call of
  the reducer and adds one state to the buffer; a subscription costs none.
\<close>

lemma step_connected:
  assumes "scan_acc st = Some acc" and "plain e"
  shows "scan_acc (step st e) =
           Some (foldl (\<lambda>s a. scan_reducer st (Some s) a) acc (published (pipeline_running st) [e]))"
    and "replay_buffer (step st e) =
           replay_buffer st @ fold_states (scan_reducer st) acc (published (pipeline_running st) [e])"
    and "length (reducer_calls (step st e)) =
           length (reducer_calls st) + length (published (pipeline_running st) [e])"
  using assms
  by (cases e; simp add: store_ops fold_states_Nil fold_states_Cons)+

lemma run_connected:
  assumes "scan_acc st = Some acc" and "\<forall>e \<in> set t. plain e"
  shows "scan_acc (run st t) =
           Some (foldl (\<lambda>s a. scan_reducer st (Some s) a) acc (published (pipeline_running st) t))
         \<and> replay_buffer (run st t) =
           replay_buffer st @ fold_states (scan_reducer st) acc (published (pipeline_running st) t)
         \<and> length (reducer_calls (run st t)) =
           length (reducer_calls st) + length (published (pipeline_running st) t)"
  using assms
proof (induction t arbitrary: st acc)
  case Nil
  then show ?case by (simp add: run_Nil fold_states_Nil)
next
  case (Cons e t)
  let ?R = "scan_reducer st"
  let ?p = "published (pipeline_running st) [e]"
  let ?acc = "foldl (\<lambda>s a. ?R (Some s) a) acc ?p"
  from Cons.prems have e: "plain e" and t: "\<forall>e \<in> set t. plain e"
    by simp_all
  have acc': "scan_acc (step st e) = Some ?acc"
    by (rule step_connected(1) [OF Cons.prems(1) e])
  from Cons.IH [OF acc' t] show ?case
    unfolding published_Cons [of _ e t]
    by (simp add: run_Cons step_frame step_running fold_states_append
        step_connected(2,3) [OF Cons.prems(1) e] del: step.simps published.simps)
qed

text \<open>Then every subscriber of \<^verbatim>\<open>state$\<close> has received the whole buffer.\<close>

lemma step_logs_invariant:
  assumes "\<forall>log \<in> set (state_logs st). log = replay_buffer st" and "plain e"
  shows "\<forall>log \<in> set (state_logs (step st e)). log = replay_buffer (step st e)"
  using assms
  by (cases e; auto simp: store_ops split: option.splits)

lemma run_logs_invariant:
  assumes "\<forall>log \<in> set (state_logs st). log = replay_buffer st" and "\<forall>e \<in> set t. plain e"
  shows "\<forall>log \<in> set (state_logs (run st t)). log = replay_buffer (run st t)"
  using assms
proof (induction t arbitrary: st)
  case Nil
  then show ?case by (simp add: run_Nil)
next
  case (Cons e t)
  from Cons.prems(2) have e: "plain e" and t: "\<forall>e \<in> set t. plain e"
    by simp_all
  from Cons.IH [OF step_logs_invariant [OF Cons.prems(1) e] t] show ?case
    by (simp only: run_Cons)
qed

lemmas eval_store = run_def createStore_def effect_next_def store_ops count_actions_def
  TEST_def INIT_def INIT_STATE_def createAction_def manual_fold_def fold_states_def

lemmas eval_delivery = publish_def delivery_order_def delivery_ops

text \<open>
  The store after any events without a state subscription (\<open>pre\<close>), the first state
  subscription, and any events during whose deliveries nothing is published (\<open>post\<close>):
  the buffer is the manual fold over the action that was current at the subscription and
  the actions published since, every state subscriber has observed exactly the buffer, and
  the reducer has been called twice plus once for every action published since.
\<close>

lemma after_first_subscription:
  assumes "SubscribeState \<notin> set pre" and "\<forall>e \<in> set post. plain e"
  shows "replay_buffer (run (createStore R eff) (pre @ SubscribeState # post)) =
           manual_fold R (last (INIT # published (eff \<noteq> None) pre) # published (eff \<noteq> None) post)"
    and "\<forall>log \<in> set (state_logs (run (createStore R eff) (pre @ SubscribeState # post))).
           log = replay_buffer (run (createStore R eff) (pre @ SubscribeState # post))"
    and "length (reducer_calls (run (createStore R eff) (pre @ SubscribeState # post))) =
           2 + length (published (eff \<noteq> None) post)"
proof -
  define st1 where "st1 = run (createStore R eff) pre"
  define st2 where "st2 = step st1 SubscribeState"
  define cur where "cur = last (INIT # published (eff \<noteq> None) pre)"
  define seed where "seed = R None INIT_STATE"
  define s1 where "s1 = R (Some seed) cur"
  define ps where "ps = published (eff \<noteq> None) post"
  have st: "run (createStore R eff) (pre @ SubscribeState # post) = run st2 post"
    by (simp add: run_append run_Cons st1_def st2_def del: step.simps)
  from run_unconnected [OF createStore_fields(5,7) assms(1), of R eff]
  have un: "scan_acc st1 = None" "replay_buffer st1 = []" "state_logs st1 = []"
    "reducer_calls st1 = [(None, INIT_STATE)]"
    by (simp_all add: createStore_fields st1_def)
  have fr: "action_value st1 = cur" "scan_reducer st1 = R" "scan_seed st1 = seed"
    "pipeline_running st1 = (eff \<noteq> None)"
    unfolding st1_def cur_def seed_def
    by (simp_all only: run_action_value run_frame run_running createStore_fields
        createStore_running)
  from first_subscription [OF un(1-3)]
  have fs: "scan_acc st2 = Some s1" "replay_buffer st2 = [s1]" "state_logs st2 = [[s1]]"
    "reducer_calls st2 = [(None, INIT_STATE), (Some seed, cur)]"
    unfolding st2_def s1_def by (simp_all only: fr un(4) append.simps)
  have fr2: "scan_reducer st2 = R" "pipeline_running st2 = (eff \<noteq> None)"
    unfolding st2_def by (simp_all only: step_frame step_running fr)
  from run_connected [OF fs(1) assms(2)]
  have rc: "replay_buffer (run st2 post) = [s1] @ fold_states R s1 ps"
    "length (reducer_calls (run st2 post)) = length (reducer_calls st2) + length ps"
    unfolding ps_def by (simp_all only: fr2 fs(2))
  have "manual_fold R (cur # ps) = s1 # fold_states R s1 ps"
    by (simp add: manual_fold_def fold_states_Cons s1_def seed_def)
  with rc(1) show "replay_buffer (run (createStore R eff) (pre @ SubscribeState # post)) =
      manual_fold R (last (INIT # published (eff \<noteq> None) pre) # published (eff \<noteq> None) post)"
    unfolding st cur_def [symmetric] ps_def [symmetric] by simp
  from rc(2) show "length (reducer_calls (run (createStore R eff) (pre @ SubscribeState # post))) =
      2 + length (published (eff \<noteq> None) post)"
    unfolding st ps_def [symmetric] by (simp add: fs(4))
  have "\<forall>log \<in> set (state_logs st2). log = replay_buffer st2"
    by (simp add: fs)
  from run_logs_invariant [OF this assms(2)]
  show "\<forall>log \<in> set (state_logs (run (createStore R eff) (pre @ SubscribeState # post))).
      log = replay_buffer (run (createStore R eff) (pre @ SubscribeState # post))"
    by (simp only: st)
qed

lemma reducer_calls_count:
  "\<forall>e \<in> set t. plain e \<Longrightarrow>
   length (reducer_calls (run (createStore R eff) (SubscribeState # t))) =
     2 + length (published (eff \<noteq> None) t)"
  using after_first_subscription(3) [of "[]" t R eff] by simp

text \<open>
  With publishes during the deliveries, what remains is the first value: after the first
  state subscription it is the first value of the buffer and of every subscriber.
\<close>

lemma first_state_after_first_subscription:
  assumes "SubscribeState \<notin> set pre"
  shows "first_state (R (Some (R None INIT_STATE)) (last (INIT # published (eff \<noteq> None) pre)))
           (run (createStore R eff) (pre @ SubscribeState # post))"
proof -
  define st1 where "st1 = run (createStore R eff) pre"
  define st2 where "st2 = step st1 SubscribeState"
  define cur where "cur = last (INIT # published (eff \<noteq> None) pre)"
  define seed where "seed = R None INIT_STATE"
  define s1 where "s1 = R (Some seed) cur"
  have st: "run (createStore R eff) (pre @ SubscribeState # post) = run st2 post"
    by (simp add: run_append run_Cons st1_def st2_def del: step.simps)
  from run_unconnected [OF createStore_fields(5,7) assms(1), of R eff]
  have un: "scan_acc st1 = None" "replay_buffer st1 = []" "state_logs st1 = []"
    by (simp_all add: createStore_fields st1_def)
  have fr: "action_value st1 = cur" "scan_reducer st1 = R" "scan_seed st1 = seed"
    unfolding st1_def cur_def seed_def
    by (simp_all only: run_action_value run_frame createStore_fields createStore_running)
  from first_subscription(1-3) [OF un(1-3)]
  have fs: "scan_acc st2 = Some s1" "replay_buffer st2 = [s1]" "state_logs st2 = [[s1]]"
    unfolding st2_def s1_def by (simp_all only: fr)
  have "first_state s1 st2"
    by (rule first_stateI) (simp_all add: fs)
  then have "first_state s1 (run st2 post)"
    by (rule run_first_state)
  then show ?thesis
    by (simp only: st s1_def seed_def cur_def)
qed

subsection \<open>A delivery that nothing interrupts\<close>

text \<open>
  The steps of a delivery without reactions do to the store what \<open>action_next\<close> does in
  one go: an emission without reactions is a plain publish.
\<close>

lemma append_at_range:
  "foldl (\<lambda>xs i. xs[i := xs ! i @ [a]]) xs [lo..<hi] =
     map (\<lambda>i. if lo \<le> i \<and> i < hi then xs ! i @ [a] else xs ! i) [0..<length xs]"
proof (induction hi)
  case 0
  show ?case by (simp add: map_nth)
next
  case (Suc hi)
  show ?case
  proof (cases "lo \<le> hi")
    case True
    let ?L = "map (\<lambda>i. if lo \<le> i \<and> i < hi then xs ! i @ [a] else xs ! i) [0..<length xs]"
    have "?L[hi := ?L ! hi @ [a]] =
        map (\<lambda>i. if lo \<le> i \<and> i < Suc hi then xs ! i @ [a] else xs ! i) [0..<length xs]"
      using True by (intro nth_equalityI) (auto simp: nth_list_update less_Suc_eq)
    with True show ?thesis by (simp add: Suc.IH)
  next
    case False
    then have "xs = map (\<lambda>i. if lo \<le> i \<and> i < Suc hi then xs ! i @ [a] else xs ! i) [0..<length xs]"
      by (intro nth_equalityI) auto
    with False show ?thesis by simp
  qed
qed

lemma deliver_subscribers:
  "deliver a (map ToSubscriber is @ rest) c st =
     deliver a rest c
       (st\<lparr>action_logs := foldl (\<lambda>xs i. xs[i := xs ! i @ [a]]) (action_logs st) is\<rparr>)"
  by (induction "is" arbitrary: st) (simp_all add: notify_action_def)

lemma deliver_last_subscribers:
  "deliver a (map ToSubscriber is) c st =
     st\<lparr>action_logs := foldl (\<lambda>xs i. xs[i := xs ! i @ [a]]) (action_logs st) is\<rparr>"
  using deliver_subscribers [of a "is" "[]" c st] by simp

lemma deliver_state_subscribers:
  "deliver a (map ToStateSubscriber js @ rest) (Some s) st =
     deliver a rest (Some s)
       (st\<lparr>state_logs := foldl (\<lambda>xs j. xs[j := xs ! j @ [s]]) (state_logs st) js\<rparr>)"
  by (induction js arbitrary: st) (simp_all add: notify_state_def)

lemma append_at_all:
  "foldl (\<lambda>xs i. xs[i := xs ! i @ [a]]) xs [0..<length xs] = map (\<lambda>x. x @ [a]) xs"
  unfolding append_at_range by (intro nth_equalityI) simp_all

lemma append_at_both:
  assumes "p \<le> length xs"
  shows "foldl (\<lambda>xs i. xs[i := xs ! i @ [a]]) (foldl (\<lambda>xs i. xs[i := xs ! i @ [a]]) xs [0..<p])
           [p..<length xs] = map (\<lambda>x. x @ [a]) xs"
proof -
  from assms have "[0..<length xs] = [0..<p] @ [p..<length xs]"
    by (metis le_add_diff_inverse upt_add_eq_append zero_le)
  with append_at_all [of a xs] show ?thesis
    by simp
qed

lemma emit_without_reactions: "emit (Emission a []) st = action_next a st"
proof -
  let ?n = "length (action_logs st)"
  let ?p = "min (scan_position st) ?n"
  let ?app = "\<lambda>v xs i. xs[i := xs ! i @ [v]]"
  have p: "?p \<le> ?n" by simp
  show ?thesis
  proof (cases "scan_acc st")
    case None
    have "deliver a (map ToSubscriber [0..<?p] @ map ToSubscriber [?p..<?n] @ []) None
        (st\<lparr>action_value := a\<rparr>) =
      st\<lparr>action_value := a, action_logs := map (\<lambda>x. x @ [a]) (action_logs st)\<rparr>"
      unfolding deliver_subscribers by (simp add: append_at_both [OF p])
    with None show ?thesis
      by (simp add: publish_def delivery_order_def action_next_def scan_next_def Let_def)
  next
    case (Some acc)
    let ?s = "scan_reducer st (Some acc) a"
    have "deliver a (map ToSubscriber [0..<?p] @ ToScan #
          map ToStateSubscriber [0..<length (state_logs st)] @ map ToSubscriber [?p..<?n] @ [])
        None (st\<lparr>action_value := a\<rparr>) =
      st\<lparr>action_value := a, action_logs := map (\<lambda>x. x @ [a]) (action_logs st),
         scan_acc := Some ?s, reducer_calls := reducer_calls st @ [(Some acc, a)],
         replay_buffer := replay_buffer st @ [?s],
         state_logs := map (\<lambda>log. log @ [?s]) (state_logs st)\<rparr>"
      unfolding deliver_subscribers
      by (simp add: Some scan_store_def deliver_state_subscribers deliver_last_subscribers
          append_at_all append_at_both [OF p])
    with Some show ?thesis
      by (simp add: publish_def delivery_order_def action_next_def scan_next_def replay_next_def
          Let_def)
  qed
qed

lemma DispatchReacting_without_reactions: "step st (DispatchReacting a []) = step st (Dispatch a)"
  by (simp add: emit_without_reactions del: emit.simps)

lemma EffectEmitReacting_without_reactions:
  "step st (EffectEmitReacting a []) = step st (EffectEmit a)"
  by (simp add: emit_without_reactions del: emit.simps)

subsection \<open>The calls of the reducer when deliveries are interrupted\<close>

text \<open>
  Once the \<^verbatim>\<open>scan\<close> is subscribed it stays so, and every published action costs one
  call of the reducer, also when it is published during the delivery of another.
\<close>

lemma emit_connected: "scan_acc st \<noteq> None \<Longrightarrow> scan_acc (emit e st) \<noteq> None"
proof -
  have "scan_acc st \<noteq> None \<longrightarrow> scan_acc (emit e st) \<noteq> None"
    by (rule emit_rel [where Rel = "\<lambda>st st'. scan_acc st \<noteq> None \<longrightarrow> scan_acc st' \<noteq> None"])
      (simp_all add: delivery_ops)
  then show "scan_acc st \<noteq> None \<Longrightarrow> scan_acc (emit e st) \<noteq> None"
    by blast
qed

lemma length_concat_schedule:
  "length (concat (map g (schedule steps reactions))) =
     length (concat (map g steps)) + length (concat (map g (concat (map snd reactions))))"
  using arg_cong [OF mset_concat_schedule [of g steps reactions], of size]
  by (simp only: size_mset size_union)

lemma reduced_reactions:
  "concat (map (reduced a) (concat (map snd (map (map_prod id (map React)) reactions)))) =
   concat (map emitted (concat (map snd reactions)))"
  unfolding snd_reactions by (simp add: comp_def)

lemma concat_Nils: "concat (map (\<lambda>x. []) xs) = []"
  by (induction xs) simp_all

lemma reduced_delivery_order:
  "scan_acc st = Some acc \<Longrightarrow> concat (map (reduced a) (delivery_order st)) = [a]"
  by (simp add: delivery_order_def Let_def comp_def concat_Nils)

lemma deliver_reducer_calls:
  assumes ih: "\<And>e (st :: 's store). React e \<in> set sops \<Longrightarrow> scan_acc st \<noteq> None \<Longrightarrow>
      length (reducer_calls (emit e st)) = length (reducer_calls st) + length (emitted e)"
    and acc: "scan_acc st \<noteq> None"
  shows "length (reducer_calls (deliver a (map (map_delivery_step emit) sops) c (st :: 's store))) =
           length (reducer_calls st) + length (concat (map (reduced a) sops))"
  using assms
proof (induction sops arbitrary: c st)
  case Nil
  show ?case by simp
next
  case (Cons x sops)
  have rest: "length (reducer_calls (deliver a (map (map_delivery_step emit) sops) c' st')) =
      length (reducer_calls st') + length (concat (map (reduced a) sops))"
    if "scan_acc st' \<noteq> None" for c' and st' :: "'s store"
    by (rule Cons.IH) (simp_all add: Cons.prems(1) that)
  note acc = Cons.prems(2)
  show ?case
  proof (cases x)
    case (ToSubscriber i)
    from acc have "scan_acc (notify_action a i st) \<noteq> None"
      by (simp add: notify_action_def)
    from rest [OF this, of c] show ?thesis
      by (simp add: ToSubscriber notify_action_def)
  next
    case ToScan
    from acc obtain v where v: "scan_acc st = Some v"
      by blast
    have "scan_acc (scan_store a v st) \<noteq> None"
      by (simp add: scan_store_def)
    from rest [OF this, of "Some (scan_reducer st (Some v) a)"] show ?thesis
      by (simp add: ToScan v scan_store_def)
  next
    case (ToStateSubscriber j)
    show ?thesis
    proof (cases c)
      case None
      with rest [OF acc, of c] show ?thesis by (simp add: ToStateSubscriber)
    next
      case (Some s)
      from acc have "scan_acc (notify_state s j st) \<noteq> None"
        by (simp add: notify_state_def)
      from rest [OF this, of c] show ?thesis
        by (simp add: ToStateSubscriber Some notify_state_def)
    qed
  next
    case (React e)
    have "length (reducer_calls (emit e st)) = length (reducer_calls st) + length (emitted e)"
      by (rule Cons.prems(1)) (simp_all add: React acc)
    with rest [OF emit_connected [OF acc], of c e] show ?thesis
      by (simp add: React)
  qed
qed

lemma emit_reducer_calls:
  "scan_acc (st :: 's store) \<noteq> None \<Longrightarrow>
   length (reducer_calls (emit e st)) = length (reducer_calls st) + length (emitted e)"
proof (induction e arbitrary: st rule: emission_induct)
  case (Emission a reactions)
  let ?sops = "schedule (delivery_order st) (map (map_prod id (map React)) reactions)"
  have ih: "length (reducer_calls (emit e st')) = length (reducer_calls st') + length (emitted e)"
    if "React e \<in> set ?sops" "scan_acc st' \<noteq> None" for e and st' :: "'s store"
  proof -
    from that(1) have "e \<in> set (concat (map snd reactions))"
      by (auto simp: set_schedule React_notin_delivery_order)
    from this that(2) show ?thesis by (rule Emission.IH)
  qed
  from Emission.prems obtain acc where acc: "scan_acc st = Some acc"
    by blast
  then have acc': "scan_acc (st\<lparr>action_value := a\<rparr>) \<noteq> None"
    by simp
  have "length (concat (map (reduced a) ?sops)) =
      length (a # concat (map emitted (concat (map snd reactions))))"
    by (simp only: length_concat_schedule reduced_delivery_order [OF acc] reduced_reactions) simp
  with deliver_reducer_calls [where sops = ?sops, OF ih acc', of a None]
  show ?case
    by (simp only: emit.simps publish_emit emitted_nested) simp
qed

lemma step_reducer_calls:
  assumes "scan_acc st \<noteq> None"
  shows "scan_acc (step st e) \<noteq> None \<and>
         length (reducer_calls (step st e)) =
           length (reducer_calls st) + length (published (pipeline_running st) [e])"
proof (cases "plain e")
  case True
  from assms obtain acc where acc: "scan_acc st = Some acc"
    by blast
  from step_connected(1,3) [OF acc True] show ?thesis
    by simp
next
  case False
  then consider a rs where "e = DispatchReacting a rs" | a rs where "e = EffectEmitReacting a rs"
    by (cases e) simp_all
  then show ?thesis
  proof cases
    case 1
    with emit_connected [OF assms, of "Emission a rs"] emit_reducer_calls [OF assms, of "Emission a rs"]
    show ?thesis
      by (simp del: emit.simps emitted.simps)
  next
    case 2
    with emit_connected [OF assms, of "Emission a rs"] emit_reducer_calls [OF assms, of "Emission a rs"]
      assms
    show ?thesis
      by (simp del: emit.simps emitted.simps)
  qed
qed

lemma run_reducer_calls:
  "scan_acc st \<noteq> None \<Longrightarrow>
   length (reducer_calls (run st t)) =
     length (reducer_calls st) + length (published (pipeline_running st) t)"
proof (induction t arbitrary: st)
  case Nil
  show ?case by (simp add: run_Nil)
next
  case (Cons e t)
  note s = step_reducer_calls [OF Cons.prems, of e]
  from s have "scan_acc (step st e) \<noteq> None" by blast
  from Cons.IH [OF this] s show ?case
    unfolding run_Cons published_Cons [of _ e t] step_running by simp
qed

text \<open>
  So the count of \<open>reducer_calls_count\<close> holds for all events: after the first
  subscription to the state stream the reducer has been called twice, and once for every
  action published since.
\<close>

lemma reducer_calls_after_first_subscription:
  assumes "SubscribeState \<notin> set pre"
  shows "length (reducer_calls (run (createStore R eff) (pre @ SubscribeState # post))) =
           2 + length (published (eff \<noteq> None) post)"
proof -
  define st1 where "st1 = run (createStore R eff) pre"
  define st2 where "st2 = step st1 SubscribeState"
  have st: "run (createStore R eff) (pre @ SubscribeState # post) = run st2 post"
    by (simp add: run_append run_Cons st1_def st2_def del: step.simps)
  from run_unconnected [OF createStore_fields(5,7) assms(1), of R eff]
  have un: "scan_acc st1 = None" "replay_buffer st1 = []" "state_logs st1 = []"
    "reducer_calls st1 = [(None, INIT_STATE)]"
    by (simp_all add: createStore_fields st1_def)
  from first_subscription(1,4) [OF un(1-3)]
  have fs: "scan_acc st2 \<noteq> None" "length (reducer_calls st2) = 2"
    unfolding st2_def by (simp_all add: un(4))
  have running: "pipeline_running st2 = (eff \<noteq> None)"
    unfolding st2_def st1_def by (simp only: step_running run_running createStore_running)
  from run_reducer_calls [OF fs(1), of post] show ?thesis
    unfolding st running fs(2) .
qed

subsection \<open>The calls that the repository's tests count\<close>

text \<open>
  The tests of \<^verbatim>\<open>createStore\<close> spy on the reducer. After one subscription to the state
  stream and one dispatch they expect three calls, the third with the initial state and the
  dispatched action; after three subscriptions they expect two calls, with
  \<^verbatim>\<open>(undefined, { type: '@@INIT/state' })\<close> and with the initial state and
  \<^verbatim>\<open>{ type: '@@INIT' }\<close>; a subscriber of the action stream of a new store receives
  \<^verbatim>\<open>{ type: '@@INIT' }\<close>. The model agrees.
\<close>

lemma calls_after_subscription_and_dispatch:
  "reducer_calls (run (createStore R eff) [SubscribeState, Dispatch a]) =
     [(None, INIT_STATE), (Some (R None INIT_STATE), INIT),
      (Some (R (Some (R None INIT_STATE)) INIT), a)]"
  by (cases eff)
    (simp_all add: run_def createStore_def effect_next_def store_ops INIT_def INIT_STATE_def)

lemma calls_after_three_subscriptions:
  "reducer_calls (run (createStore R eff) [SubscribeState, SubscribeState, SubscribeState]) =
     [(None, INIT_STATE), (Some (R None INIT_STATE), INIT)]"
  by (cases eff)
    (simp_all add: run_def createStore_def effect_next_def store_ops INIT_def INIT_STATE_def)

lemma new_store_action_subscriber:
  "action_logs (run (createStore R eff) [SubscribeAction]) = [[INIT]]"
  by (cases eff)
    (simp_all add: run_def createStore_def effect_next_def store_ops INIT_def INIT_STATE_def)

text \<open>
  Another of these tests gives the store the effect
  \<^verbatim>\<open>action$ => action$.pipe(ofType('A'), mapTo({ type: 'B' }))\<close>, subscribes to the
  state stream and dispatches \<^verbatim>\<open>A\<close>. The effect subscribes to the action stream when
  the store is built, before the \<^verbatim>\<open>scan\<close> does, and emits \<^verbatim>\<open>B\<close> from inside the
  delivery of \<^verbatim>\<open>A\<close>; the pipeline publishes it there, without a scheduler. So the
  reducer is called with \<^verbatim>\<open>B\<close> before it is called with \<^verbatim>\<open>A\<close> (the test, written
  for the \<^verbatim>\<open>createStore\<close> of \<^verbatim>\<open>../creators/createStore\<close>, expects \<^verbatim>\<open>A\<close>
  first), a subscriber of the action stream that came after the effect receives \<^verbatim>\<open>B\<close>
  before \<^verbatim>\<open>A\<close>, and the stream holds \<^verbatim>\<open>B\<close> at the end.
\<close>

lemma emission_during_delivery:
  "reducer_calls (run (createStore R (Some f))
       [SubscribeAction, SubscribeState, SubscribeAction,
        DispatchReacting a [(1, [Emission b []])]]) =
     [(None, INIT_STATE), (Some (R None INIT_STATE), INIT),
      (Some (R (Some (R None INIT_STATE)) INIT), b),
      (Some (R (Some (R (Some (R None INIT_STATE)) INIT)) b), a)] \<and>
   action_logs (run (createStore R (Some f))
       [SubscribeAction, SubscribeState, SubscribeAction,
        DispatchReacting a [(1, [Emission b []])]]) =
     [[INIT, a, b], [INIT, b, a]] \<and>
   action_value (run (createStore R (Some f))
       [SubscribeAction, SubscribeState, SubscribeAction,
        DispatchReacting a [(1, [Emission b []])]]) = b"
  by (simp add: run_def createStore_def effect_next_def store_ops INIT_def INIT_STATE_def
      publish_def delivery_order_def delivery_ops)

subsection \<open>What the subscribers of the two streams observe\<close>

text \<open>
  C1: for every reducer \<open>R\<close>, every root effect argument and every finite sequence of
  actions \<open>a1..an\<close>, a subscriber that subscribes to the state stream of a new store,
  after which \<open>a1..an\<close> are dispatched from outside (and nothing else is published), has
  observed exactly the state sequence of the manual fold of \<open>R\<close> from the seed
  \<^verbatim>\<open>R(undefined, { type: '@@INIT/state' })\<close> over \<^verbatim>\<open>{ type: '@@INIT' }\<close>,
  \<open>a1..an\<close>: one state for each of these actions.
\<close>

theorem state_stream_is_manual_fold:
  "state_logs (run (createStore R eff) (SubscribeState # map Dispatch as)) =
     [manual_fold R (INIT # as)]"
proof -
  let ?st = "run (createStore R eff) (SubscribeState # map Dispatch as)"
  have "SubscribeState \<notin> set ([] :: event list)" by simp
  from after_first_subscription(1,2) [OF this plain_Dispatch, of R eff as]
  have logs: "\<forall>log \<in> set (state_logs ?st). log = manual_fold R (INIT # as)"
    by (simp add: published_Dispatch)
  have "length (state_logs ?st) = 1"
    using run_length_logs [of "createStore R eff" "SubscribeState # map Dispatch as"]
    by (simp add: createStore_fields count_list_Dispatch)
  then obtain log where "state_logs ?st = [log]"
    by (cases "state_logs ?st") auto
  with logs show ?thesis by simp
qed

theorem state_stream_is_manual_fold_witness:
  "state_logs (run (createStore count_actions (Some (combineEffects [])))
     (SubscribeState # map Dispatch [TEST, TEST])) = [[2, 3, 4]]"
  using state_stream_is_manual_fold [of count_actions "Some (combineEffects [])" "[TEST, TEST]"]
  by (simp add: manual_fold_def fold_states_def count_actions_def)

text \<open>
  The same sequence is observed by a subscriber that does not come first (an effect may have
  subscribed to the state stream when it was invoked), as long as nothing was published
  before it came; and the actions that the effect emits between the deliveries are folded
  like the dispatched ones.
\<close>

lemma state_subscriber_observes_fold:
  assumes "published (eff \<noteq> None) pre = []"
    and plain: "\<forall>e \<in> set pre. plain e" "\<forall>e \<in> set post. plain e"
  shows "state_logs (run (createStore R eff) (pre @ SubscribeState # post))
           ! length (state_logs (run (createStore R eff) pre)) =
         manual_fold R (INIT # published (eff \<noteq> None) post)"
proof -
  let ?st = "run (createStore R eff) (pre @ SubscribeState # post)"
  let ?i = "length (state_logs (run (createStore R eff) pre))"
  have "?i < length (state_logs ?st)"
    using run_length_logs [of "createStore R eff" pre]
      run_length_logs [of "createStore R eff" "pre @ SubscribeState # post"]
    by simp
  then have mem: "state_logs ?st ! ?i \<in> set (state_logs ?st)"
    by (rule nth_mem)
  show ?thesis
  proof (cases "SubscribeState \<in> set pre")
    case False
    from after_first_subscription(1,2) [OF False plain(2), of R eff, unfolded assms(1)] mem
    show ?thesis by simp
  next
    case True
    then obtain p1 p2 where pre: "pre = p1 @ SubscribeState # p2" and p1: "SubscribeState \<notin> set p1"
      by (auto dest: split_list_first)
    from assms(1) have "published (eff \<noteq> None) p1 @ published (eff \<noteq> None) (SubscribeState # p2) = []"
      unfolding pre published_append .
    then have e1: "published (eff \<noteq> None) p1 = []"
      and "published (eff \<noteq> None) (SubscribeState # p2) = []"
      by blast+
    then have e2: "published (eff \<noteq> None) p2 = []"
      by (simp only: published.simps)
    have tr: "pre @ SubscribeState # post = p1 @ SubscribeState # (p2 @ SubscribeState # post)"
      by (simp add: pre)
    have pub: "published (eff \<noteq> None) (p2 @ SubscribeState # post) = published (eff \<noteq> None) post"
      by (simp only: published_append published.simps e2 append_Nil)
    from plain have pl: "\<forall>e \<in> set (p2 @ SubscribeState # post). plain e"
      by (auto simp: pre)
    from after_first_subscription(1,2) [OF p1 pl, of R eff, unfolded pub e1, folded tr] mem
    show ?thesis by simp
  qed
qed

text \<open>
  C2: \<^verbatim>\<open>createStore\<close> called with a reducer and no effect argument, as the repository's
  test \<^verbatim>\<open>'should not create effects pipeline if no effects are provided'\<close> calls it,
  is to publish nothing into the effect-registration stream. The function has no branch
  for a missing effect: \<^verbatim>\<open>effect$.next(rootEffect)\<close> is its unconditional last statement
  before the \<^verbatim>\<open>return\<close>. Called with the reducer \<^verbatim>\<open>(state = 0, action) => state + 1\<close>
  alone, it publishes \<^verbatim>\<open>undefined\<close> once; the \<^verbatim>\<open>mergeMap\<close> calls that value as a
  function, which raises a \<^verbatim>\<open>TypeError\<close>, so that no effect is invoked and the pipeline
  has failed when \<^verbatim>\<open>createStore\<close> is left.
\<close>

theorem createStore_without_effect:
  "effect_published (createStore count_actions None) = [None] \<and>
   effect_invoked (createStore count_actions None) = [] \<and>
   effect_failed (createStore count_actions None)"
  by (simp add: eval_store)

text \<open>
  The other half of the claim holds: with a root effect there is exactly one publish, of
  that effect, which is invoked once; nothing that happens to the store later publishes
  there again, and the pipeline does not fail.
\<close>

lemma effect_published_with_effect:
  "effect_published (run (createStore R (Some f)) t) = [Some f] \<and>
   effect_invoked (run (createStore R (Some f)) t) = [f] \<and>
   \<not> effect_failed (run (createStore R (Some f)) t)"
  by (simp add: run_frame createStore_fields)

text \<open>
  C3: for every sequence of actions dispatched from outside and every \<open>N \<ge> 1\<close>,
  subscribing to the state stream \<open>N\<close> times and dispatching the actions calls the root
  reducer as many times as subscribing once and dispatching them.
\<close>

theorem reducer_calls_shared:
  "0 < N \<Longrightarrow>
   length (reducer_calls (run (createStore R eff) (replicate N SubscribeState @ map Dispatch as))) =
   length (reducer_calls (run (createStore R eff) (SubscribeState # map Dispatch as)))"
proof -
  assume "0 < N"
  then obtain M where N: "N = Suc M" by (cases N) auto
  have tr: "replicate N SubscribeState @ map Dispatch as =
      SubscribeState # (replicate M SubscribeState @ map Dispatch as)"
    by (simp add: N)
  have pl: "\<forall>e \<in> set (replicate M SubscribeState @ map Dispatch as). plain e"
    by auto
  show ?thesis
    unfolding tr
    by (simp only: reducer_calls_count [OF pl] reducer_calls_count [OF plain_Dispatch]
        published_append published_replicate_SubscribeState published_Dispatch append_Nil)
qed

theorem reducer_calls_shared_witness:
  "(0::nat) < 3 \<and>
   length (reducer_calls (run (createStore count_actions (Some (combineEffects [])))
     (replicate 3 SubscribeState @ map Dispatch [TEST]))) =
   length (reducer_calls (run (createStore count_actions (Some (combineEffects [])))
     (SubscribeState # map Dispatch [TEST])))"
proof -
  have h: "(0::nat) < 3" by simp
  from h reducer_calls_shared [OF h, of count_actions "Some (combineEffects [])" "[TEST]"]
  show ?thesis by simp
qed

text \<open>
  The same holds wherever the further subscriptions come and whatever is published, also
  during a delivery: after the first subscription the number of calls is two (the seed, and
  the action current at the first subscription) plus the number of actions published since
  (\<open>reducer_calls_after_first_subscription\<close>), and a subscription publishes nothing.
\<close>

lemma reducer_calls_ignore_subscriptions:
  "length (reducer_calls (run (createStore R eff) (SubscribeState # t))) =
   length (reducer_calls (run (createStore R eff)
     (SubscribeState # filter (\<lambda>e. e \<noteq> SubscribeState) t)))"
  using reducer_calls_after_first_subscription [of "[]" R eff]
  by (simp add: published_without_subscriptions)

text \<open>
  C4, as stated: for every reducer the first value that a subscriber of the state stream
  observes is \<^verbatim>\<open>R(undefined, { type: '@@INIT/state' })\<close>. The \<^verbatim>\<open>scan\<close> does not
  emit its seed: the first value is the seed with the current action folded in. For the
  reducer that counts its actions the seed is 1 and the first value observed is 2.
\<close>

theorem first_state_counterexample:
  "hd (state_logs (run (createStore count_actions (Some (combineEffects []))) [SubscribeState]) ! 0)
     \<noteq> count_actions None INIT_STATE"
  by (simp add: eval_store)

text \<open>
  C4, amended: for every reducer \<open>R\<close>, the first value observed by any subscriber of the
  state stream is \<^verbatim>\<open>R(R(undefined, { type: '@@INIT/state' }), a)\<close>, where \<open>a\<close> is the
  value that the action stream held when the state stream was subscribed for the first time:
  the last action published before, \<^verbatim>\<open>{ type: '@@INIT' }\<close> when none was. This holds
  whatever is published, also during a delivery, before and after.
\<close>

theorem first_state_observed:
  assumes "SubscribeState \<notin> set pre"
    and "i < length (state_logs (run (createStore R eff) (pre @ SubscribeState # post)))"
  shows "state_logs (run (createStore R eff) (pre @ SubscribeState # post)) ! i \<noteq> [] \<and>
         hd (state_logs (run (createStore R eff) (pre @ SubscribeState # post)) ! i) =
           R (Some (R None INIT_STATE)) (last (INIT # published (eff \<noteq> None) pre))"
proof -
  let ?st = "run (createStore R eff) (pre @ SubscribeState # post)"
  from assms(2) have mem: "state_logs ?st ! i \<in> set (state_logs ?st)"
    by (rule nth_mem)
  note fs = first_state_after_first_subscription [OF assms(1), of R eff post]
  from first_stateD(4) [OF fs mem] first_stateD(5) [OF fs mem] show ?thesis
    by (rule conjI)
qed

theorem first_state_observed_witness:
  "SubscribeState \<notin> set [Dispatch TEST] \<and>
   1 < length (state_logs (run (createStore count_actions (Some (combineEffects [])))
         ([Dispatch TEST] @ SubscribeState # [Dispatch TEST, SubscribeState]))) \<and>
   state_logs (run (createStore count_actions (Some (combineEffects [])))
         ([Dispatch TEST] @ SubscribeState # [Dispatch TEST, SubscribeState])) ! 1 \<noteq> [] \<and>
   hd (state_logs (run (createStore count_actions (Some (combineEffects [])))
         ([Dispatch TEST] @ SubscribeState # [Dispatch TEST, SubscribeState])) ! 1) =
     count_actions (Some (count_actions None INIT_STATE)) TEST"
proof -
  have h1: "SubscribeState \<notin> set [Dispatch TEST]" by simp
  have h2: "1 < length (state_logs (run (createStore count_actions (Some (combineEffects [])))
         ([Dispatch TEST] @ SubscribeState # [Dispatch TEST, SubscribeState])))"
    by (simp add: eval_store)
  from first_state_observed [OF h1 h2] h1 h2 show ?thesis
    by simp
qed

text \<open>
  C5, as stated: whenever a subscriber subscribes to the action stream, the first value it
  observes is \<^verbatim>\<open>{ type: '@@INIT' }\<close>. The action stream is a \<^verbatim>\<open>BehaviorSubject\<close>,
  which hands a new subscriber its current value: after a dispatch of
  \<^verbatim>\<open>{ type: 'TEST' }\<close> that is the first value a new subscriber observes.
\<close>

theorem first_action_counterexample:
  "hd (action_logs (run (createStore count_actions (Some (combineEffects [])))
         [Dispatch TEST, SubscribeAction]) ! 0) \<noteq> INIT"
  by (simp add: eval_store)

text \<open>
  C5, amended: the first value that a subscriber of the action stream observes is the value
  the stream holds when it subscribes, which is the last action whose publishing began
  before (from outside or by the effect) and \<^verbatim>\<open>{ type: '@@INIT' }\<close> when none was.
  After it the subscriber observes every action published since, each exactly once; in the
  order of publishing when nothing is published during the delivery of another action (an
  action published during a delivery may reach the subscriber before the action being
  delivered). So a subscriber that comes before any publish observes
  \<^verbatim>\<open>{ type: '@@INIT' }\<close> first, and once unless that action is published again.
\<close>

theorem action_subscriber_observes:
  "action_logs (run (createStore R eff) (pre @ SubscribeAction # post))
     ! length (action_logs (run (createStore R eff) pre)) \<noteq> [] \<and>
   hd (action_logs (run (createStore R eff) (pre @ SubscribeAction # post))
     ! length (action_logs (run (createStore R eff) pre))) =
     last (INIT # published (eff \<noteq> None) pre) \<and>
   mset (tl (action_logs (run (createStore R eff) (pre @ SubscribeAction # post))
     ! length (action_logs (run (createStore R eff) pre)))) =
     mset (published (eff \<noteq> None) post) \<and>
   ((\<forall>e \<in> set post. plain e) \<longrightarrow>
    tl (action_logs (run (createStore R eff) (pre @ SubscribeAction # post))
      ! length (action_logs (run (createStore R eff) pre))) =
      published (eff \<noteq> None) post)"
proof -
  define st1 where "st1 = run (createStore R eff) pre"
  define st2 where "st2 = step st1 SubscribeAction"
  define k where "k = length (action_logs st1)"
  define cur where "cur = last (INIT # published (eff \<noteq> None) pre)"
  define ps where "ps = published (eff \<noteq> None) post"
  have st: "run (createStore R eff) (pre @ SubscribeAction # post) = run st2 post"
    by (simp add: run_append run_Cons st1_def st2_def del: step.simps)
  have "action_value st1 = cur"
    unfolding st1_def cur_def
    by (simp only: run_action_value createStore_fields createStore_running)
  then have new: "action_logs st2 ! k = [cur]" and lt: "k < length (action_logs st2)"
    by (simp_all add: st2_def k_def action_subscribe_def)
  have running: "pipeline_running st2 = (eff \<noteq> None)"
    unfolding st2_def st1_def by (simp only: step_running run_running createStore_running)
  from run_action_log [OF lt, of post] obtain ys
    where ys: "action_logs (run st2 post) ! k = cur # ys" "mset ys = mset ps"
    unfolding running new ps_def by auto
  have "tl (action_logs (run st2 post) ! k) = ps" if "\<forall>e \<in> set post. plain e"
    using run_action_log_plain [OF that lt] unfolding running new ps_def by simp
  with ys show ?thesis
    unfolding st st1_def [symmetric] k_def [symmetric] cur_def [symmetric] ps_def [symmetric]
    by simp
qed

theorem action_subscriber_observes_witness:
  "action_logs (run (createStore count_actions (Some (combineEffects [])))
     ([SubscribeAction] @ SubscribeAction #
        [DispatchReacting TEST [(1, [Emission INIT_STATE []])]])) ! 1 = [INIT, INIT_STATE, TEST] \<and>
   published True [DispatchReacting TEST [(1, [Emission INIT_STATE []])]] = [TEST, INIT_STATE] \<and>
   plain (Dispatch INIT_STATE) \<and> plain (EffectEmit TEST) \<and>
   action_logs (run (createStore count_actions (Some (combineEffects [])))
     ([Dispatch TEST] @ SubscribeAction # [Dispatch INIT_STATE, EffectEmit TEST])) ! 0 =
     [TEST, INIT_STATE, TEST]"
proof -
  let ?store = "createStore count_actions (Some (combineEffects []))"
  have k1: "length (action_logs (run ?store [SubscribeAction])) = 1"
    and k2: "length (action_logs (run ?store [Dispatch TEST])) = 0"
    by (simp_all add: eval_store)
  have pl: "\<forall>e \<in> set [Dispatch INIT_STATE, EffectEmit TEST]. plain e"
    by simp
  have log: "action_logs (run ?store ([SubscribeAction] @ SubscribeAction #
        [DispatchReacting TEST [(1, [Emission INIT_STATE []])]])) ! 1 = [INIT, INIT_STATE, TEST]"
    by (simp add: eval_store eval_delivery)
  from action_subscriber_observes [of count_actions "Some (combineEffects [])"
      "[SubscribeAction]" "[DispatchReacting TEST [(1, [Emission INIT_STATE []])]]"]
  have "mset (tl (action_logs (run ?store ([SubscribeAction] @ SubscribeAction #
        [DispatchReacting TEST [(1, [Emission INIT_STATE []])]])) ! 1)) =
      mset (published True [DispatchReacting TEST [(1, [Emission INIT_STATE []])]])"
    unfolding k1 by simp
  moreover from action_subscriber_observes [of count_actions "Some (combineEffects [])"
      "[Dispatch TEST]" "[Dispatch INIT_STATE, EffectEmit TEST]"] pl
  have "action_logs (run ?store ([Dispatch TEST] @ SubscribeAction #
        [Dispatch INIT_STATE, EffectEmit TEST])) ! 0 \<noteq> []"
    "hd (action_logs (run ?store ([Dispatch TEST] @ SubscribeAction #
        [Dispatch INIT_STATE, EffectEmit TEST])) ! 0) = TEST"
    "tl (action_logs (run ?store ([Dispatch TEST] @ SubscribeAction #
        [Dispatch INIT_STATE, EffectEmit TEST])) ! 0) = [INIT_STATE, TEST]"
    unfolding k2 by simp_all
  then have "action_logs (run ?store ([Dispatch TEST] @ SubscribeAction #
        [Dispatch INIT_STATE, EffectEmit TEST])) ! 0 = [TEST, INIT_STATE, TEST]"
    by (metis list.collapse)
  ultimately show ?thesis
    using log pl by simp
qed

text \<open>
  C6, as stated: a subscriber that subscribes to the state stream after \<open>k\<close> state values
  have been computed receives at once the most recent value only. \<^verbatim>\<open>shareReplay()\<close> is
  called without a buffer size, so its buffer is unbounded: with the counting reducer, a
  subscriber that comes after the states 2 and 3 receives both.
\<close>

theorem late_subscriber_counterexample:
  "state_logs (run (createStore count_actions (Some (combineEffects [])))
         [SubscribeState, Dispatch TEST, SubscribeState]) ! 1 = [2, 3]"
  by (simp add: eval_store)

text \<open>
  C6, amended: the state stream replays its whole history to a new subscriber. A subscriber
  that subscribes after a first subscriber and the dispatch of \<open>a1..an\<close>, that is after
  \<open>n + 1\<close> state values have been computed, receives at once all of them in the order
  of their computation, the most recent last, and then the value computed for each action
  \<open>b1..bm\<close> dispatched later.
\<close>

theorem late_subscriber_receives_history:
  "state_logs (run (createStore R eff)
       (SubscribeState # map Dispatch as @ SubscribeState # map Dispatch bs)) ! 1 =
     manual_fold R (INIT # as @ bs)"
proof -
  let ?post = "map Dispatch as @ SubscribeState # map Dispatch bs"
  let ?st = "run (createStore R eff) (SubscribeState # ?post)"
  have pub: "published (eff \<noteq> None) ?post = as @ bs"
    by (simp add: published_append published_Dispatch)
  have pl: "\<forall>e \<in> set ?post. plain e"
    by auto
  have "SubscribeState \<notin> set ([] :: event list)" by simp
  from after_first_subscription(1,2) [OF this pl, of R eff, unfolded pub]
  have logs: "\<forall>log \<in> set (state_logs ?st). log = manual_fold R (INIT # as @ bs)"
    by simp
  have "length (state_logs ?st) = 2"
    using run_length_logs [of "createStore R eff" "SubscribeState # ?post"]
    by (simp add: createStore_fields count_list_Dispatch)
  then have "state_logs ?st ! 1 \<in> set (state_logs ?st)"
    by simp
  with logs show ?thesis by blast
qed

theorem late_subscriber_receives_history_witness:
  "state_logs (run (createStore count_actions (Some (combineEffects [])))
     (SubscribeState # map Dispatch [TEST] @ SubscribeState # map Dispatch [TEST])) ! 1 = [2, 3, 4]"
  using late_subscriber_receives_history [of count_actions "Some (combineEffects [])" "[TEST]" "[TEST]"]
  by (simp add: manual_fold_def fold_states_def count_actions_def)

text \<open>
  When nothing is published during a delivery, every subscriber of the state stream has at
  every moment observed the whole buffer of the replay, whenever it subscribed.
\<close>

lemma state_subscribers_hold_history:
  assumes "\<forall>e \<in> set t. plain e"
  shows "\<forall>log \<in> set (state_logs (run (createStore R eff) t)).
     log = replay_buffer (run (createStore R eff) t)"
  by (rule run_logs_invariant [OF _ assms]) (simp add: createStore_fields)

end
